theory Spec2Isabelle
  imports Complex_Main
begin

section \<open>Python values used by pdfParser.py\<close>

text \<open>
  The embedding follows \<^verbatim>\<open>src/pdfParser.py\<close>. Text is a HOL \<open>string\<close> whose characters
  stand for the code points U+0000 to U+00FF; the character classes of \<^verbatim>\<open>re\<close> and
  \<^verbatim>\<open>str\<close> below are the ones CPython uses on that range. Page coordinates, which
  pdfplumber delivers as floats, are taken as exact reals.
\<close>

subsection \<open>Exceptions\<close>

datatype py_exc = InvalidOperation | TypeError | Overflow | IndexError

subsection \<open>Characters and the str methods\<close>

definition code :: "char \<Rightarrow> nat" where
  "code c = of_char c"

text \<open>\<^verbatim>\<open>str.isspace\<close>, which is also what \<^verbatim>\<open>\s\<close> and \<^verbatim>\<open>str.strip()\<close> test.\<close>

definition is_space :: "char \<Rightarrow> bool" where
  "is_space c = (code c \<in> {9, 10, 11, 12, 13, 28, 29, 30, 31, 32, 133, 160})"

text \<open>\<^verbatim>\<open>\d\<close>: the decimal digits; below U+0100 these are 0 to 9 only.\<close>

definition is_digit :: "char \<Rightarrow> bool" where
  "is_digit c = (48 \<le> code c \<and> code c \<le> 57)"

text \<open>\<^verbatim>\<open>\w\<close>: alphanumeric (\<^verbatim>\<open>str.isalnum\<close>) or the underscore.\<close>

definition is_word :: "char \<Rightarrow> bool" where
  "is_word c = (let n = code c in
     (48 \<le> n \<and> n \<le> 57) \<or> (65 \<le> n \<and> n \<le> 90) \<or> n = 95 \<or> (97 \<le> n \<and> n \<le> 122)
     \<or> n \<in> {170, 178, 179, 181, 185, 186, 188, 189, 190}
     \<or> (192 \<le> n \<and> n \<le> 214) \<or> (216 \<le> n \<and> n \<le> 246) \<or> (248 \<le> n \<and> n \<le> 255))"

definition lower_char :: "char \<Rightarrow> char" where
  "lower_char c = (let n = code c in
     if (65 \<le> n \<and> n \<le> 90) \<or> (192 \<le> n \<and> n \<le> 214) \<or> (216 \<le> n \<and> n \<le> 222)
     then char_of (n + 32) else c)"

definition lower :: "string \<Rightarrow> string" where
  "lower s = map lower_char s"

definition strip :: "string \<Rightarrow> string" where
  "strip s = rev (dropWhile is_space (rev (dropWhile is_space s)))"

text \<open>\<^verbatim>\<open>s.replace(c, "")\<close> for a one-character \<open>c\<close>.\<close>

definition remove_char :: "char \<Rightarrow> string \<Rightarrow> string" where
  "remove_char c s = filter (\<lambda>x. x \<noteq> c) s"

subsection \<open>decimal.Decimal under the default context\<close>

text \<open>
  A Decimal is a sign, a coefficient and an exponent, or one of the special values.
  The sign is \<open>True\<close> for negative. A NaN carries its payload (0 when there is none).
\<close>

datatype decimal =
    Finite bool nat int
  | Infinity bool
  | NaN bool nat
  | SNaN bool nat

definition prec :: int where "prec = 28"
definition Emax :: int where "Emax = 999999"
definition Emin :: int where "Emin = - 999999"
definition Etiny :: int where "Etiny = Emin - prec + 1"
definition Etop :: int where "Etop = Emax - prec + 1"

text \<open>The limits of the exact constructor in 64-bit CPython.\<close>

definition MAX_PREC :: int where "MAX_PREC = 999999999999999999"
definition MAX_EMAX :: int where "MAX_EMAX = 999999999999999999"
definition MIN_ETINY :: int where "MIN_ETINY = - 1999999999999999997"

fun ndigits :: "nat \<Rightarrow> nat" where
  "ndigits n = (if n < 10 then 1 else Suc (ndigits (n div 10)))"

declare ndigits.simps [simp del]

definition nat_of_digits :: "string \<Rightarrow> nat" where
  "nat_of_digits s = foldl (\<lambda>a c. 10 * a + (code c - 48)) 0 s"

fun split_sign :: "string \<Rightarrow> bool \<times> string" where
  "split_sign [] = (False, [])"
| "split_sign (c # cs) =
     (if c = CHR ''+'' then (False, cs)
      else if c = CHR ''-'' then (True, cs)
      else (False, c # cs))"

text \<open>
  The exact constructor refuses a value that the widest context would have to round or
  clamp.
\<close>

definition exact_check :: "bool \<Rightarrow> nat \<Rightarrow> int \<Rightarrow> py_exc + decimal" where
  "exact_check s c e =
     (if c = 0 then
        (if MIN_ETINY \<le> e \<and> e \<le> MAX_EMAX then Inr (Finite s c e) else Inl InvalidOperation)
      else if int (ndigits c) \<le> MAX_PREC \<and> MIN_ETINY \<le> e \<and> int (ndigits c) - 1 + e \<le> MAX_EMAX
        then Inr (Finite s c e)
      else Inl InvalidOperation)"

definition parse_exponent :: "string \<Rightarrow> int option" where
  "parse_exponent s =
     (case split_sign s of (neg, ds) \<Rightarrow>
        if ds \<noteq> [] \<and> list_all is_digit ds
        then Some (if neg then - int (nat_of_digits ds) else int (nat_of_digits ds))
        else None)"

definition is_indicator :: "char \<Rightarrow> bool" where
  "is_indicator c = (c = CHR ''e'' \<or> c = CHR ''E'')"

definition parse_numeric :: "bool \<Rightarrow> string \<Rightarrow> py_exc + decimal" where
  "parse_numeric sg s =
     (let mant = takeWhile (\<lambda>c. \<not> is_indicator c) s;
          rest = dropWhile (\<lambda>c. \<not> is_indicator c) s;
          ip = takeWhile (\<lambda>c. c \<noteq> CHR ''.'') mant;
          fp = drop 1 (dropWhile (\<lambda>c. c \<noteq> CHR ''.'') mant)
      in if \<not> list_all is_digit ip \<or> \<not> list_all is_digit fp \<or> ip @ fp = []
            \<or> int (length fp) > MAX_PREC
         then Inl InvalidOperation
         else (case (if rest = [] then Some 0 else parse_exponent (drop 1 rest)) of
                 None \<Rightarrow> Inl InvalidOperation
               | Some e \<Rightarrow> exact_check sg (nat_of_digits (ip @ fp)) (e - int (length fp))))"

definition parse_payload :: "string \<Rightarrow> nat option" where
  "parse_payload s =
     (if list_all is_digit s \<and> (nat_of_digits s = 0 \<or> int (ndigits (nat_of_digits s)) \<le> MAX_PREC)
      then Some (nat_of_digits s) else None)"

text \<open>
  \<^verbatim>\<open>Decimal(s)\<close> for a string: surrounding whitespace is stripped, underscores are
  dropped, then an optional sign is followed by a NaN, an infinity or a decimal numeral
  with an optional exponent. A string outside that grammar raises InvalidOperation.
\<close>

definition Decimal :: "string \<Rightarrow> py_exc + decimal" where
  "Decimal s =
     (case split_sign (remove_char (CHR ''_'') (strip s)) of (sg, b) \<Rightarrow>
        if lower (take 3 b) = ''nan'' then
          (case parse_payload (drop 3 b) of
             None \<Rightarrow> Inl InvalidOperation | Some p \<Rightarrow> Inr (NaN sg p))
        else if lower (take 4 b) = ''snan'' then
          (case parse_payload (drop 4 b) of
             None \<Rightarrow> Inl InvalidOperation | Some p \<Rightarrow> Inr (SNaN sg p))
        else if lower (take 3 b) = ''inf'' then
          (if drop 3 b = [] \<or> lower (drop 3 b) = ''inity'' then Inr (Infinity sg)
           else Inl InvalidOperation)
        else parse_numeric sg b)"

text \<open>
  Rounding of a finite result to the context: 28 significant digits, half-even, with
  the exponent range of the default context. Overflow is trapped, so it raises;
  underflow to a subnormal or to zero is not trapped.
\<close>

definition dec_fix :: "bool \<Rightarrow> nat \<Rightarrow> int \<Rightarrow> py_exc + decimal" where
  "dec_fix s c e =
     (if c = 0 then Inr (Finite s 0 (min (max e Etiny) Emax))
      else if int (ndigits c) + e - prec > Etop then Inl Overflow
      else
        (let exp_min = max (int (ndigits c) + e - prec) Etiny in
         if e < exp_min then
           (let k = nat (exp_min - e);
                q = c div 10 ^ k;
                r = c mod 10 ^ k;
                q' = (if 2 * r > 10 ^ k \<or> (2 * r = 10 ^ k \<and> odd q) then q + 1 else q);
                coeff = (if int (ndigits q') > prec then q' div 10 else q');
                exp_min' = (if int (ndigits q') > prec then exp_min + 1 else exp_min)
            in if exp_min' > Etop then Inl Overflow else Inr (Finite s coeff exp_min'))
         else Inr (Finite s c e)))"

fun is_snan :: "decimal \<Rightarrow> bool" where
  "is_snan (SNaN s p) = True"
| "is_snan d = False"

fun is_nan :: "decimal \<Rightarrow> bool" where
  "is_nan (NaN s p) = True"
| "is_nan (SNaN s p) = True"
| "is_nan d = False"

fun is_zero :: "decimal \<Rightarrow> bool" where
  "is_zero (Finite s c e) = (c = 0)"
| "is_zero d = False"

fun dec_sign :: "decimal \<Rightarrow> bool" where
  "dec_sign (Finite s c e) = s"
| "dec_sign (Infinity s) = s"
| "dec_sign (NaN s p) = s"
| "dec_sign (SNaN s p) = s"

text \<open>\<^verbatim>\<open>a * b\<close> on Decimals.\<close>

fun decimal_mul :: "decimal \<Rightarrow> decimal \<Rightarrow> py_exc + decimal" where
  "decimal_mul (SNaN s p) b = Inl InvalidOperation"
| "decimal_mul (NaN s p) b =
     (if is_snan b then Inl InvalidOperation else Inr (NaN s (p mod 10 ^ 28)))"
| "decimal_mul a (SNaN s p) = Inl InvalidOperation"
| "decimal_mul a (NaN s p) = Inr (NaN s (p mod 10 ^ 28))"
| "decimal_mul (Infinity s) b =
     (if is_zero b then Inl InvalidOperation else Inr (Infinity (s \<noteq> dec_sign b)))"
| "decimal_mul a (Infinity s) =
     (if is_zero a then Inl InvalidOperation else Inr (Infinity (dec_sign a \<noteq> s)))"
| "decimal_mul (Finite s1 c1 e1) (Finite s2 c2 e2) = dec_fix (s1 \<noteq> s2) (c1 * c2) (e1 + e2)"

text \<open>
  Comparison is by numeric value: both coefficients are brought to the smaller of the
  two exponents. Minus infinity is below, plus infinity above every finite value.
\<close>

definition scaled :: "bool \<Rightarrow> nat \<Rightarrow> int \<Rightarrow> int \<Rightarrow> int" where
  "scaled s c e m = (if s then - int c else int c) * 10 ^ nat (e - m)"

fun dec_less :: "decimal \<Rightarrow> decimal \<Rightarrow> bool" where
  "dec_less (Finite s1 c1 e1) (Finite s2 c2 e2) =
     (scaled s1 c1 e1 (min e1 e2) < scaled s2 c2 e2 (min e1 e2))"
| "dec_less (Infinity s1) (Finite s2 c2 e2) = s1"
| "dec_less (Finite s1 c1 e1) (Infinity s2) = (\<not> s2)"
| "dec_less (Infinity s1) (Infinity s2) = (s1 \<and> \<not> s2)"
| "dec_less a b = False"

text \<open>
  \<^verbatim>\<open>a > b\<close>: an ordering comparison with a NaN signals InvalidOperation, which the
  default context traps.
\<close>

definition decimal_gt :: "decimal \<Rightarrow> decimal \<Rightarrow> py_exc + bool" where
  "decimal_gt a b = (if is_nan a \<or> is_nan b then Inl InvalidOperation else Inr (dec_less b a))"

text \<open>\<^verbatim>\<open>a == b\<close>: only a signaling NaN raises; a quiet NaN is unequal to everything.\<close>

definition decimal_eq :: "decimal \<Rightarrow> decimal \<Rightarrow> py_exc + bool" where
  "decimal_eq a b =
     (if is_snan a \<or> is_snan b then Inl InvalidOperation
      else if is_nan a \<or> is_nan b then Inr False
      else Inr (\<not> dec_less a b \<and> \<not> dec_less b a))"

text \<open>
  The numeric reading of a Decimal, used to reason about the comparison: a rank that
  separates the infinities from the finite values, and the real value of a finite one.
\<close>

fun dec_rank :: "decimal \<Rightarrow> int" where
  "dec_rank (Infinity s) = (if s then - 1 else 1)"
| "dec_rank d = 0"

fun dec_val :: "decimal \<Rightarrow> real" where
  "dec_val (Finite s c e) = (if s then - real c else real c) * 10 powi e"
| "dec_val d = 0"

section \<open>Configuration\<close>

text \<open>The dictionary keeps its insertion order, which the column scan relies on.\<close>

definition MULTIPLIERS :: "(string \<times> decimal) list" where
  "MULTIPLIERS =
     [(''thousand'', Finite False 1000 0),
      (''thousands'', Finite False 1000 0),
      (''million'', Finite False 1000000 0),
      (''millions'', Finite False 1000000 0),
      (''billion'', Finite False 1000000000 0),
      (''billions'', Finite False 1000000000 0),
      (''trillion'', Finite False 1000000000000 0),
      (''trillions'', Finite False 1000000000000 0)]"

definition ROW_EXCLUSION_KEYWORDS :: "string list" where
  "ROW_EXCLUSION_KEYWORDS = [''percentage'', ''percent'', ''%'', ''number'', ''rate'', ''ratio'']"

section \<open>clean_number_string and parse_value\<close>

definition clean_number_string :: "string \<Rightarrow> string" where
  "clean_number_string s = strip (remove_char (CHR '','') (remove_char (CHR ''$'') s))"

text \<open>The body of the \<^verbatim>\<open>try\<close> block of \<^verbatim>\<open>parse_value\<close>.\<close>

definition parse_value_try :: "string \<Rightarrow> string option \<Rightarrow> decimal \<Rightarrow> py_exc + decimal" where
  "parse_value_try num_str multiplier_word context_multiplier =
     (case Decimal (clean_number_string num_str) of
        Inl ex \<Rightarrow> Inl ex
      | Inr base_number \<Rightarrow>
          (case (case multiplier_word of
                   None \<Rightarrow> None
                 | Some w \<Rightarrow> if w \<noteq> [] then map_of MULTIPLIERS (lower w) else None) of
             Some m \<Rightarrow> decimal_mul base_number m
           | None \<Rightarrow> decimal_mul base_number context_multiplier))"

text \<open>
  The handler: InvalidOperation and TypeError become \<^verbatim>\<open>Decimal(0)\<close>; any other
  exception leaves \<^verbatim>\<open>parse_value\<close>.
\<close>

fun except_invalid :: "py_exc + decimal \<Rightarrow> py_exc + decimal" where
  "except_invalid (Inl InvalidOperation) = Inr (Finite False 0 0)"
| "except_invalid (Inl TypeError) = Inr (Finite False 0 0)"
| "except_invalid r = r"

definition parse_value :: "string \<Rightarrow> string option \<Rightarrow> decimal \<Rightarrow> py_exc + decimal" where
  "parse_value num_str multiplier_word context_multiplier =
     except_invalid (parse_value_try num_str multiplier_word context_multiplier)"

section \<open>The re module: a backtracking matcher\<close>

text \<open>
  The fragment of \<^verbatim>\<open>re\<close> syntax that the three patterns of the program use. \<open>Str w\<close> is
  a run of literal characters, \<open>Rep lo hi r\<close> the greedy repetition \<^verbatim>\<open>r{lo,hi}\<close> (so
  \<^verbatim>\<open>r?\<close> is \<open>Rep 0 (Some 1) r\<close>, \<^verbatim>\<open>r*\<close> is \<open>Rep 0 None r\<close> and \<^verbatim>\<open>r+\<close> is
  \<open>Rep 1 None r\<close>), \<open>Group n r\<close> the n-th capturing group, \<open>Boundary\<close> is \<^verbatim>\<open>\b\<close> and
  \<open>Lookahead r\<close> is \<^verbatim>\<open>(?=r)\<close>.
\<close>

datatype regex =
    Str string
  | Digit
  | Space
  | Word
  | Seq regex regex
  | Alt regex regex
  | Rep nat "nat option" regex
  | Group nat regex
  | Boundary
  | Lookahead regex

type_synonym caps = "nat \<Rightarrow> (nat \<times> nat) option"

fun rsize :: "regex \<Rightarrow> nat" where
  "rsize (Seq a b) = Suc (rsize a + rsize b)"
| "rsize (Alt a b) = Suc (rsize a + rsize b)"
| "rsize (Rep lo hi r) = Suc (rsize r)"
| "rsize (Group n r) = Suc (rsize r)"
| "rsize (Lookahead r) = Suc (rsize r)"
| "rsize r = 0"

text \<open>Comparison of a text character with a pattern character; \<open>ic\<close> is re.IGNORECASE.\<close>

definition chr_eq :: "bool \<Rightarrow> char \<Rightarrow> char \<Rightarrow> bool" where
  "chr_eq ic x c = (if ic then lower_char x = lower_char c else x = c)"

definition substr :: "string \<Rightarrow> nat \<Rightarrow> nat \<Rightarrow> string" where
  "substr s i j = take (j - i) (drop i s)"

definition at_boundary :: "string \<Rightarrow> nat \<Rightarrow> bool" where
  "at_boundary s i =
     ((0 < i \<and> i \<le> length s \<and> is_word (s ! (i - 1))) \<noteq> (i < length s \<and> is_word (s ! i)))"

text \<open>
  \<open>rmatch ic r s i cp\<close> lists, in the order in which the backtracking engine tries them,
  the ways \<open>r\<close> can match \<open>s\<close> from position \<open>i\<close> with the groups \<open>cp\<close> set so far: each
  is an end position with the groups then set. The engine takes the first one that lets
  the rest of the pattern match. A repetition goes on only after an iteration that
  consumed text; every repeated sub-pattern of the program consumes at least one
  character.
\<close>

function (sequential) rmatch :: "bool \<Rightarrow> regex \<Rightarrow> string \<Rightarrow> nat \<Rightarrow> caps \<Rightarrow> (nat \<times> caps) list" where
  "rmatch ic (Str w) s i cp =
     (if i + length w \<le> length s \<and> list_all2 (chr_eq ic) (substr s i (i + length w)) w
      then [(i + length w, cp)] else [])"
| "rmatch ic Digit s i cp = (if i < length s \<and> is_digit (s ! i) then [(Suc i, cp)] else [])"
| "rmatch ic Space s i cp = (if i < length s \<and> is_space (s ! i) then [(Suc i, cp)] else [])"
| "rmatch ic Word s i cp = (if i < length s \<and> is_word (s ! i) then [(Suc i, cp)] else [])"
| "rmatch ic (Seq a b) s i cp =
     concat (map (\<lambda>(j, cp'). rmatch ic b s j cp') (rmatch ic a s i cp))"
| "rmatch ic (Alt a b) s i cp = rmatch ic a s i cp @ rmatch ic b s i cp"
| "rmatch ic (Rep lo hi r) s i cp =
     (if hi = Some 0 then []
      else concat (map (\<lambda>(j, cp').
                     if i < j \<and> j \<le> length s
                     then rmatch ic (Rep (lo - 1) (map_option (\<lambda>h. h - 1) hi) r) s j cp'
                     else [])
                   (rmatch ic r s i cp)))
     @ (if lo = 0 then [(i, cp)] else [])"
| "rmatch ic (Group n r) s i cp =
     map (\<lambda>(j, cp'). (j, cp'(n \<mapsto> (i, j)))) (rmatch ic r s i cp)"
| "rmatch ic Boundary s i cp = (if at_boundary s i then [(i, cp)] else [])"
| "rmatch ic (Lookahead r) s i cp =
     (case rmatch ic r s i cp of [] \<Rightarrow> [] | (j, cp') # rest \<Rightarrow> [(i, cp')])"
  by pat_completeness auto
termination
  by (relation "measures [\<lambda>(ic, r, s, i, cp). rsize r, \<lambda>(ic, r, s, i, cp). length s - i]") auto

declare rmatch.simps [simp del]

text \<open>
  A match object: where the match starts and ends, and its groups. \<open>match_at\<close> is the
  attempt at one start position.
\<close>

type_synonym rmatch_obj = "nat \<times> nat \<times> caps"

definition match_at :: "bool \<Rightarrow> regex \<Rightarrow> string \<Rightarrow> nat \<Rightarrow> rmatch_obj option" where
  "match_at ic r s k =
     (case rmatch ic r s k (\<lambda>n. None) of [] \<Rightarrow> None | (j, cp) # rest \<Rightarrow> Some (k, j, cp))"

text \<open>
  \<^verbatim>\<open>pattern.finditer(s)\<close>: the start positions are tried from left to right; after a
  match the scan resumes at its end (one further after an empty match), so matches do
  not overlap. \<open>nxt\<close> is the position where the scan may resume.
\<close>

fun finditer_pos :: "bool \<Rightarrow> regex \<Rightarrow> string \<Rightarrow> nat list \<Rightarrow> nat \<Rightarrow> rmatch_obj list" where
  "finditer_pos ic r s [] nxt = []"
| "finditer_pos ic r s (k # ks) nxt =
     (if k < nxt then finditer_pos ic r s ks nxt
      else (case match_at ic r s k of
              None \<Rightarrow> finditer_pos ic r s ks nxt
            | Some (k', j, cp) \<Rightarrow> (k', j, cp) # finditer_pos ic r s ks (max j (Suc k))))"

definition finditer :: "bool \<Rightarrow> regex \<Rightarrow> string \<Rightarrow> rmatch_obj list" where
  "finditer ic r s = finditer_pos ic r s [0..<Suc (length s)] 0"

text \<open>\<^verbatim>\<open>pattern.search(s)\<close>: the match at the leftmost start position that has one.\<close>

fun search_pos :: "bool \<Rightarrow> regex \<Rightarrow> string \<Rightarrow> nat list \<Rightarrow> rmatch_obj option" where
  "search_pos ic r s [] = None"
| "search_pos ic r s (k # ks) =
     (case match_at ic r s k of None \<Rightarrow> search_pos ic r s ks | Some m \<Rightarrow> Some m)"

definition search :: "bool \<Rightarrow> regex \<Rightarrow> string \<Rightarrow> rmatch_obj option" where
  "search ic r s = search_pos ic r s [0..<Suc (length s)]"

text \<open>\<^verbatim>\<open>match.group(n)\<close> and \<^verbatim>\<open>match.groups()\<close> for a pattern with \<open>n\<close> groups.\<close>

definition group_text :: "string \<Rightarrow> caps \<Rightarrow> nat \<Rightarrow> string option" where
  "group_text s cp n = (case cp n of None \<Rightarrow> None | Some (a, b) \<Rightarrow> Some (substr s a b))"

definition groups :: "string \<Rightarrow> rmatch_obj \<Rightarrow> nat \<Rightarrow> string option list" where
  "groups s m n = (case m of (k, j, cp) \<Rightarrow> map (group_text s cp) [1..<Suc n])"

subsection \<open>What a pattern can match\<close>

text \<open>
  The strings a pattern can consume, whatever stands around them (a boundary and a
  lookahead consume nothing), and the groups a pattern can set. They serve to state
  what every match of the matcher above is.
\<close>

definition reps :: "nat \<Rightarrow> nat option \<Rightarrow> string set \<Rightarrow> string set" where
  "reps lo hi L =
     {concat xs | xs. set xs \<subseteq> L \<and> lo \<le> length xs
                      \<and> (case hi of None \<Rightarrow> True | Some h \<Rightarrow> length xs \<le> h)}"

fun lang :: "bool \<Rightarrow> regex \<Rightarrow> string set" where
  "lang ic (Str w) = {x. list_all2 (chr_eq ic) x w}"
| "lang ic Digit = {[c] | c. is_digit c}"
| "lang ic Space = {[c] | c. is_space c}"
| "lang ic Word = {[c] | c. is_word c}"
| "lang ic (Seq a b) = {x @ y | x y. x \<in> lang ic a \<and> y \<in> lang ic b}"
| "lang ic (Alt a b) = lang ic a \<union> lang ic b"
| "lang ic (Rep lo hi r) = reps lo hi (lang ic r)"
| "lang ic (Group n r) = lang ic r"
| "lang ic Boundary = {[]}"
| "lang ic (Lookahead r) = {[]}"

fun groups_of :: "regex \<Rightarrow> nat set" where
  "groups_of (Seq a b) = groups_of a \<union> groups_of b"
| "groups_of (Alt a b) = groups_of a \<union> groups_of b"
| "groups_of (Rep lo hi r) = groups_of r"
| "groups_of (Group n r) = insert n (groups_of r)"
| "groups_of (Lookahead r) = groups_of r"
| "groups_of r = {}"

subsection \<open>The patterns\<close>

text \<open>
  \<^verbatim>\<open>CONTEXT_MULTIPLIER_RE = r"\(in (?P<multiplier_word>\w+)\)|\(\$(?P<multiplier_word2>\w+)\)|dollars in (?P<multiplier_word3>\w+)"\<close>,
  compiled with re.IGNORECASE.
\<close>

definition CONTEXT_MULTIPLIER_RE :: regex where
  "CONTEXT_MULTIPLIER_RE =
     Alt (Seq (Str ''(in '') (Seq (Group 1 (Rep 1 None Word)) (Str '')'')))
    (Alt (Seq (Str ''($'') (Seq (Group 2 (Rep 1 None Word)) (Str '')'')))
         (Seq (Str ''dollars in '') (Group 3 (Rep 1 None Word))))"

text \<open>
  \<^verbatim>\<open>NUMBER_RE = r"(\$?\s*(?:\d{1,3}(?:,\d{3})*|\d+)(?:\.\d+)?)\s*(thousand|million|billion|trillion)?(?=\b)"\<close>,
  compiled with re.IGNORECASE.
\<close>

definition NUMBER_LITERAL :: regex where
  "NUMBER_LITERAL =
     Seq (Rep 0 (Some 1) (Str ''$''))
    (Seq (Rep 0 None Space)
    (Seq (Alt (Seq (Rep 1 (Some 3) Digit) (Rep 0 None (Seq (Str '','') (Rep 3 (Some 3) Digit))))
              (Rep 1 None Digit))
         (Rep 0 (Some 1) (Seq (Str ''.'') (Rep 1 None Digit)))))"

definition INLINE_WORD :: regex where
  "INLINE_WORD =
     Alt (Str ''thousand'') (Alt (Str ''million'') (Alt (Str ''billion'') (Str ''trillion'')))"

definition NUMBER_RE :: regex where
  "NUMBER_RE =
     Seq (Group 1 NUMBER_LITERAL)
    (Seq (Rep 0 None Space)
    (Seq (Rep 0 (Some 1) (Group 2 INLINE_WORD))
         (Lookahead Boundary)))"

text \<open>The pairs \<^verbatim>\<open>num_str, multiplier_word = match.groups()\<close> over \<^verbatim>\<open>NUMBER_RE.finditer(s)\<close>.\<close>

definition number_tokens :: "string \<Rightarrow> (string \<times> string option) list" where
  "number_tokens s =
     map (\<lambda>(k, j, cp). (case group_text s cp 1 of None \<Rightarrow> [] | Some t \<Rightarrow> t, group_text s cp 2))
         (finditer True NUMBER_RE s)"

section \<open>Python floats\<close>

text \<open>
  A Python float is an IEEE 754 binary64 number. The coordinates that pdfplumber
  delivers are finite floats; here they are the real numbers that these floats stand
  for, and an arithmetic operation of the code is the exact operation followed by
  \<open>float_round\<close>, the rounding to the nearest double, ties to the even significand.
  Comparisons and \<^verbatim>\<open>abs\<close> are exact on floats and need no rounding.

  \<open>float_exponent x\<close> is the exponent \<open>e\<close> of the binade \<open>2^e \<le> |x| < 2^(e+1)\<close> of \<open>x\<close>,
  found by the search downwards from the greatest exponent 1023, and not less than
  -1022, the exponent of the subnormal numbers; the doubles of that binade are the
  multiples of \<open>2^(e-52)\<close>. A result of magnitude \<open>2^1024\<close> or more stands for an
  infinity, which compares with a finite number as that result does.
\<close>

definition round_half_even :: "real \<Rightarrow> int" where
  "round_half_even x =
     (let f = \<lfloor>x\<rfloor> in
      if x - of_int f < 1 / 2 then f
      else if 1 / 2 < x - of_int f then f + 1
      else if even f then f else f + 1)"

function float_exponent_from :: "int \<Rightarrow> real \<Rightarrow> int" where
  "float_exponent_from e x =
     (if e \<le> - 1022 \<or> 2 powi e \<le> \<bar>x\<bar> then e else float_exponent_from (e - 1) x)"
  by auto
termination
  by (relation "measure (\<lambda>(e, x). nat (e + 1022))") auto

declare float_exponent_from.simps [simp del]

definition float_exponent :: "real \<Rightarrow> int" where
  "float_exponent x = float_exponent_from 1023 x"

definition float_round :: "real \<Rightarrow> real" where
  "float_round x =
     real_of_int (round_half_even (x / 2 powi (float_exponent x - 52)))
       * 2 powi (float_exponent x - 52)"

text \<open>The float that the literal \<^verbatim>\<open>0.15\<close> denotes: the double nearest to 15/100.\<close>

definition float_0_15 :: real where
  "float_0_15 = 5404319552844595 / 36028797018963968"

section \<open>The document as pdfplumber delivers it\<close>

text \<open>
  A word of \<^verbatim>\<open>page.extract_words()\<close>, a bounding box \<^verbatim>\<open>(x0, top, x1, bottom)\<close>, a table
  of \<^verbatim>\<open>page.extract_tables()\<close> (rows of cells, a cell a string or None) and a page with
  its height, its words, its tables and the boxes of \<^verbatim>\<open>page.find_tables()\<close>. Every box is
  a 4-tuple, which is truthy, so the filter \<^verbatim>\<open>if t.bbox\<close> keeps all of them.
\<close>

record word =
  w_text :: string
  w_x0 :: real
  w_top :: real
  w_x1 :: real
  w_bottom :: real

type_synonym bbox = "real \<times> real \<times> real \<times> real"

type_synonym row = "string option list"

type_synonym table = "row list"

record page =
  page_height :: real
  extract_words :: "word list"
  extract_tables :: "table list"
  find_tables :: "bbox list"

section \<open>Helpers of the scan\<close>

text \<open>\<^verbatim>\<open>sep.join(xs)\<close>.\<close>

fun join :: "string \<Rightarrow> string list \<Rightarrow> string" where
  "join sep [] = []"
| "join sep [x] = x"
| "join sep (x # y # ys) = x @ sep @ join sep (y # ys)"

text \<open>\<^verbatim>\<open>sub in s\<close> on strings.\<close>

fun contains :: "string \<Rightarrow> string \<Rightarrow> bool" where
  "contains sub [] = (sub = [])"
| "contains sub (x # xs) = (take (length sub) (x # xs) = sub \<or> contains sub xs)"

text \<open>Truthiness of an optional string: None and the empty string are falsy.\<close>

fun truthy :: "string option \<Rightarrow> bool" where
  "truthy None = False"
| "truthy (Some t) = (t \<noteq> [])"

definition is_within_bboxes :: "word \<Rightarrow> bbox list \<Rightarrow> bool" where
  "is_within_bboxes word bboxes =
     list_ex (\<lambda>(b_x0, b_top, b_x1, b_bottom).
                w_x0 word < b_x1 \<and> w_x1 word > b_x0 \<and> w_top word < b_bottom \<and> w_bottom word > b_top)
             bboxes"

text \<open>\<^verbatim>\<open>next((g for g in match.groups() if g), None)\<close>, as the page-level scan has it.\<close>

definition first_truthy_group :: "string option list \<Rightarrow> string option" where
  "first_truthy_group gs = (case List.find truthy gs of None \<Rightarrow> None | Some g \<Rightarrow> g)"

text \<open>\<^verbatim>\<open>next((g for g in match.groups() if g is not None), None)\<close>, as the table scan has it.\<close>

definition first_set_group :: "string option list \<Rightarrow> string option" where
  "first_set_group gs = (case List.find (\<lambda>g. g \<noteq> None) gs of None \<Rightarrow> None | Some g \<Rightarrow> g)"

text \<open>
  \<^verbatim>\<open>if multiplier_word and multiplier_word.lower() in MULTIPLIERS\<close>, giving
  \<^verbatim>\<open>MULTIPLIERS[multiplier_word.lower()]\<close>.
\<close>

definition lexicon_multiplier :: "string option \<Rightarrow> decimal option" where
  "lexicon_multiplier multiplier_word =
     (case multiplier_word of
        None \<Rightarrow> None
      | Some w \<Rightarrow> if w \<noteq> [] then map_of MULTIPLIERS (lower w) else None)"

section \<open>get_page_level_multiplier\<close>

text \<open>
  \<open>page_height\<close> is \<^verbatim>\<open>float(page.height)\<close>; the threshold \<^verbatim>\<open>page_height * 0.15\<close> is a float
  product.
\<close>

definition header_text :: "page \<Rightarrow> string" where
  "header_text page =
     join '' '' (map w_text
       (filter (\<lambda>w. w_top w < float_round (page_height page * float_0_15)) (extract_words page)))"

definition get_page_level_multiplier :: "page \<Rightarrow> decimal" where
  "get_page_level_multiplier page =
     (if extract_words page = [] then Finite False 1 0
      else (case search True CONTEXT_MULTIPLIER_RE (header_text page) of
              None \<Rightarrow> Finite False 1 0
            | Some context_match \<Rightarrow>
                (case lexicon_multiplier (first_truthy_group (groups (header_text page) context_match 3)) of
                   Some m \<Rightarrow> m
                 | None \<Rightarrow> Finite False 1 0)))"

section \<open>find_highest_value_in_pdf\<close>

record scan_state =
  max_value :: decimal
  max_page :: int

text \<open>A \<^verbatim>\<open>for\<close> loop over a list that threads the state and stops at the first exception.\<close>

fun for_each :: "('a \<Rightarrow> 's \<Rightarrow> py_exc + 's) \<Rightarrow> 'a list \<Rightarrow> 's \<Rightarrow> py_exc + 's" where
  "for_each f [] st = Inr st"
| "for_each f (x # xs) st = (case f x st of Inl ex \<Rightarrow> Inl ex | Inr st' \<Rightarrow> for_each f xs st')"

text \<open>\<^verbatim>\<open>if value > max_value: max_value = value; max_page = page_num\<close>.\<close>

definition update_max :: "int \<Rightarrow> decimal \<Rightarrow> scan_state \<Rightarrow> py_exc + scan_state" where
  "update_max page_num v st =
     (case decimal_gt v (max_value st) of
        Inl ex \<Rightarrow> Inl ex
      | Inr True \<Rightarrow> Inr \<lparr>max_value = v, max_page = page_num\<rparr>
      | Inr False \<Rightarrow> Inr st)"

subsection \<open>Step 2: tables\<close>

text \<open>
  The text near the table: the words collected by the loop of lines 147 to 154. The two
  differences \<^verbatim>\<open>word["top"] - bbox[1]\<close> and \<^verbatim>\<open>word["bottom"] - bbox[3]\<close> are float
  subtractions.
\<close>

definition near_table :: "bbox \<Rightarrow> word \<Rightarrow> bool" where
  "near_table bbox word =
     (case bbox of (b0, b1, b2, b3) \<Rightarrow>
        b0 \<le> w_x0 word \<and> w_x0 word \<le> b2
        \<and> (\<bar>float_round (w_top word - b1)\<bar> < 80 \<or> \<bar>float_round (w_bottom word - b3)\<bar> < 80))"

definition nearby_text :: "bbox \<Rightarrow> word list \<Rightarrow> string" where
  "nearby_text bbox ws =
     foldl (\<lambda>acc word. if near_table bbox word then acc @ '' '' @ w_text word else acc) [] ws"

definition table_context_multiplier :: "decimal \<Rightarrow> bbox \<Rightarrow> word list \<Rightarrow> decimal" where
  "table_context_multiplier page_context_multiplier bbox ws =
     (case search True CONTEXT_MULTIPLIER_RE (nearby_text bbox ws) of
        None \<Rightarrow> page_context_multiplier
      | Some nearby_match \<Rightarrow>
          (case lexicon_multiplier (first_set_group (groups (nearby_text bbox ws) nearby_match 3)) of
             Some m \<Rightarrow> m
           | None \<Rightarrow> page_context_multiplier))"

text \<open>
  The inner loop over \<^verbatim>\<open>MULTIPLIERS.items()\<close> with its \<^verbatim>\<open>break\<close>: the factor of the
  first lexicon word that occurs in the lower-cased header cell between word
  boundaries.
\<close>

definition header_cell_multiplier :: "string \<Rightarrow> decimal option" where
  "header_cell_multiplier header_text_lower =
     map_option snd
       (List.find (\<lambda>(word, multiplier).
                     search False (Seq Boundary (Seq (Str word) Boundary)) header_text_lower \<noteq> None)
                  MULTIPLIERS)"

definition column_multipliers :: "row \<Rightarrow> (nat \<Rightarrow> decimal option)" where
  "column_multipliers header_row =
     foldl (\<lambda>cm (col_idx, header_cell).
              (case header_cell of
                 None \<Rightarrow> cm
               | Some h \<Rightarrow>
                   if h = [] then cm
                   else (case header_cell_multiplier (lower h) of
                           None \<Rightarrow> cm
                         | Some multiplier \<Rightarrow> cm(col_idx \<mapsto> multiplier))))
           (\<lambda>col_idx. None) (List.enumerate 0 header_row)"

definition is_excluded_row :: "string \<Rightarrow> bool" where
  "is_excluded_row first_cell = list_ex (\<lambda>kw. contains kw (lower first_cell)) ROW_EXCLUSION_KEYWORDS"

text \<open>
  \<^verbatim>\<open>column_multipliers.get(col_idx, table_context_multiplier if not is_excluded_row else Decimal("1"))\<close>.
\<close>

definition pick_context_mult :: "(nat \<Rightarrow> decimal option) \<Rightarrow> nat \<Rightarrow> decimal \<Rightarrow> bool \<Rightarrow> decimal" where
  "pick_context_mult col_mults col_idx table_mult excluded =
     (case col_mults col_idx of
        Some m \<Rightarrow> m
      | None \<Rightarrow> if \<not> excluded then table_mult else Finite False 1 0)"

text \<open>The body of the loop over the matches: resolve the value, then compare.\<close>

definition process_token ::
  "int \<Rightarrow> decimal \<Rightarrow> string \<times> string option \<Rightarrow> scan_state \<Rightarrow> py_exc + scan_state" where
  "process_token page_num context_mult tok st =
     (case tok of (num_str, multiplier_word) \<Rightarrow>
        (case parse_value num_str multiplier_word context_mult of
           Inl ex \<Rightarrow> Inl ex
         | Inr v \<Rightarrow> update_max page_num v st))"

definition process_cell ::
  "int \<Rightarrow> (nat \<Rightarrow> decimal option) \<Rightarrow> decimal \<Rightarrow> bool \<Rightarrow> nat \<times> string option
     \<Rightarrow> scan_state \<Rightarrow> py_exc + scan_state" where
  "process_cell page_num col_mults table_mult excluded ic st =
     (case ic of (col_idx, cell) \<Rightarrow>
        (case cell of
           None \<Rightarrow> Inr st
         | Some c \<Rightarrow>
             if c = [] then Inr st
             else for_each
                    (process_token page_num (pick_context_mult col_mults col_idx table_mult excluded))
                    (number_tokens c) st))"

definition process_row ::
  "int \<Rightarrow> (nat \<Rightarrow> decimal option) \<Rightarrow> decimal \<Rightarrow> row \<Rightarrow> scan_state \<Rightarrow> py_exc + scan_state" where
  "process_row page_num col_mults table_mult row st =
     (case row of
        [] \<Rightarrow> Inr st
      | None # cells \<Rightarrow> Inr st
      | Some first_cell # cells \<Rightarrow>
          if first_cell = [] then Inr st
          else for_each (process_cell page_num col_mults table_mult (is_excluded_row first_cell))
                 (List.enumerate 0 row) st)"

definition process_table ::
  "page \<Rightarrow> int \<Rightarrow> decimal \<Rightarrow> nat \<times> table \<Rightarrow> scan_state \<Rightarrow> py_exc + scan_state" where
  "process_table page page_num page_context_multiplier it st =
     (case it of (t_idx, table) \<Rightarrow>
        (case table of
           [] \<Rightarrow> Inr st
         | header_row # data_rows \<Rightarrow>
             if header_row = [] then Inr st
             else if length (find_tables page) \<le> t_idx then Inl IndexError
             else for_each
                    (process_row page_num (column_multipliers header_row)
                       (table_context_multiplier page_context_multiplier
                          (find_tables page ! t_idx) (extract_words page)))
                    data_rows st))"

subsection \<open>Step 3: the text outside the tables\<close>

definition non_table_text :: "page \<Rightarrow> string" where
  "non_table_text page =
     join '' '' (map w_text
       (filter (\<lambda>word. \<not> is_within_bboxes word (find_tables page)) (extract_words page)))"

definition process_non_table :: "page \<Rightarrow> int \<Rightarrow> scan_state \<Rightarrow> py_exc + scan_state" where
  "process_non_table page page_num st =
     (if non_table_text page = [] then Inr st
      else for_each (process_token page_num (Finite False 1 0))
             (number_tokens (non_table_text page)) st)"

subsection \<open>The loop over the pages and the result\<close>

definition process_page :: "nat \<times> page \<Rightarrow> scan_state \<Rightarrow> py_exc + scan_state" where
  "process_page ip st =
     (case ip of (i, page) \<Rightarrow>
        (case for_each (process_table page (int i + 1) (get_page_level_multiplier page))
                (List.enumerate 0 (extract_tables page)) st of
           Inl ex \<Rightarrow> Inl ex
         | Inr st' \<Rightarrow> process_non_table page (int i + 1) st'))"

definition initial_state :: scan_state where
  "initial_state = \<lparr>max_value = Infinity True, max_page = - 1\<rparr>"

definition scan_pages :: "page list \<Rightarrow> py_exc + scan_state" where
  "scan_pages pages = for_each process_page (List.enumerate 0 pages) initial_state"

text \<open>
  The argument is what \<^verbatim>\<open>pdfplumber.open\<close> gives: the pages, or \<open>None\<close> when opening
  raises. Any exception inside the \<^verbatim>\<open>try\<close> gives \<^verbatim>\<open>(None, None)\<close>, which is the result
  \<open>None\<close> here; so does a maximum that is still minus infinity. The comparison with
  minus infinity stands outside the \<^verbatim>\<open>try\<close>.
\<close>

definition find_highest_value_in_pdf :: "page list option \<Rightarrow> py_exc + (decimal \<times> int) option" where
  "find_highest_value_in_pdf pdf =
     (case pdf of
        None \<Rightarrow> Inr None
      | Some pages \<Rightarrow>
          (case scan_pages pages of
             Inl ex \<Rightarrow> Inr None
           | Inr st \<Rightarrow>
               (case decimal_eq (max_value st) (Infinity True) of
                  Inl ex \<Rightarrow> Inl ex
                | Inr True \<Rightarrow> Inr None
                | Inr False \<Rightarrow> Inr (Some (max_value st, max_page st)))))"

section \<open>The relation between the states before and after a step\<close>

text \<open>
  \<open>advances p st st'\<close>: the state is unchanged, or the maximum is strictly greater and
  its page is \<open>p\<close>.
\<close>

definition advances :: "int \<Rightarrow> scan_state \<Rightarrow> scan_state \<Rightarrow> bool" where
  "advances p st st' = (st' = st \<or> (dec_less (max_value st) (max_value st') \<and> max_page st' = p))"

section \<open>The texts that the scan reads\<close>

text \<open>
  The cells in which the scan looks for numbers: in a table with a non-empty header
  row, the non-empty cells of the data rows whose first cell is non-empty. With the
  text outside the tables they are the texts of a page in which a number token can be
  found.
\<close>

fun row_cells :: "row \<Rightarrow> string list" where
  "row_cells [] = []"
| "row_cells (None # cells) = []"
| "row_cells (Some first_cell # cells) =
     (if first_cell = [] then []
      else concat (map (\<lambda>cell. case cell of None \<Rightarrow> [] | Some c \<Rightarrow> if c = [] then [] else [c])
                    (Some first_cell # cells)))"

fun scanned_cells :: "table \<Rightarrow> string list" where
  "scanned_cells [] = []"
| "scanned_cells (header_row # data_rows) =
     (if header_row = [] then [] else concat (map row_cells data_rows))"

definition page_texts :: "page \<Rightarrow> string list" where
  "page_texts page = concat (map scanned_cells (extract_tables page)) @ [non_table_text page]"

section \<open>Example documents\<close>

definition mk_word :: "string \<Rightarrow> real \<Rightarrow> real \<Rightarrow> real \<Rightarrow> real \<Rightarrow> word" where
  "mk_word t a b c d = \<lparr>w_text = t, w_x0 = a, w_top = b, w_x1 = c, w_bottom = d\<rparr>"

text \<open>
  Example 4 of the specification: a header "(in billions)" and the free text
  "$500 million", no table.
\<close>

definition ex4_page :: page where
  "ex4_page = \<lparr>page_height = 1000,
      extract_words = [mk_word ''(in'' 10 20 30 30, mk_word ''billions)'' 35 20 90 30,
                       mk_word ''$500'' 10 300 30 310, mk_word ''million'' 35 300 90 310],
      extract_tables = [], find_tables = []\<rparr>"

text \<open>A page whose free text is "5", and a later page whose free text is "5.0 3".\<close>

definition tie_page1 :: page where
  "tie_page1 = \<lparr>page_height = 1000, extract_words = [mk_word ''5'' 10 300 30 310],
      extract_tables = [], find_tables = []\<rparr>"

definition tie_page2 :: page where
  "tie_page2 = \<lparr>page_height = 1000,
      extract_words = [mk_word ''5.0'' 10 300 30 310, mk_word ''3'' 40 300 50 310],
      extract_tables = [], find_tables = []\<rparr>"

text \<open>
  Two tables that differ in the first cell of their data row only: None in the first,
  a label in the second.
\<close>

definition skip_table :: table where
  "skip_table = [[Some ''h'', Some ''v''], [None, Some ''999'']]"

definition skip_page :: page where
  "skip_page = \<lparr>page_height = 1000, extract_words = [],
      extract_tables = [skip_table], find_tables = [(0, 500, 200, 600)]\<rparr>"

definition label_table :: table where
  "label_table = [[Some ''h'', Some ''v''], [Some ''x'', Some ''999'']]"

definition label_page :: page where
  "label_page = \<lparr>page_height = 1000, extract_words = [],
      extract_tables = [label_table], find_tables = [(0, 500, 200, 600)]\<rparr>"

text \<open>
  The selection of the words near a table as the specification words it: the word's
  horizontal span, from \<open>x0\<close> to \<open>x1\<close>, lies within the box's left and right edges, and
  it is vertically less than 80 units from the box's top or bottom edge.
\<close>

definition spec_near_table :: "bbox \<Rightarrow> word \<Rightarrow> bool" where
  "spec_near_table bbox word =
     (case bbox of (b0, b1, b2, b3) \<Rightarrow>
        b0 \<le> w_x0 word \<and> w_x1 word \<le> b2
        \<and> (\<bar>float_round (w_top word - b1)\<bar> < 80 \<or> \<bar>float_round (w_bottom word - b3)\<bar> < 80))"

text \<open>
  Two words above a table box that spans 0 to 200 horizontally; the second word starts
  inside that span and ends beyond it.
\<close>

definition wide_box :: bbox where
  "wide_box = (0, 500, 200, 600)"

definition wide_words :: "word list" where
  "wide_words = [mk_word ''(in'' 10 460 30 470, mk_word ''millions)'' 35 460 250 470]"

text \<open>
  Two words whose top is the double 0.1, and a table box whose top is the double 80.1.
  The exact difference of the two doubles is less than 80 in magnitude; the float
  subtraction \<^verbatim>\<open>0.1 - 80.1\<close> gives \<^verbatim>\<open>-80.0\<close>.
\<close>

definition float_0_1 :: real where
  "float_0_1 = 3602879701896397 / 36028797018963968"

definition float_80_1 :: real where
  "float_80_1 = 2818268204315443 / 35184372088832"

definition edge_box :: bbox where
  "edge_box = (0, float_80_1, 200, 600)"

definition edge_words :: "word list" where
  "edge_words = [mk_word ''(in'' 10 float_0_1 30 10, mk_word ''millions)'' 35 float_0_1 90 10]"

text \<open>
  A page whose header reads "(in thousands)", with one table far below the header: no
  word of the page is near the table.
\<close>

definition thousands_page :: page where
  "thousands_page = \<lparr>page_height = 1000,
      extract_words = [mk_word ''(in'' 10 20 30 30, mk_word ''thousands)'' 35 20 90 30],
      extract_tables = [[[Some ''Item'', Some ''Amount''], [Some ''Revenue'', Some ''45.2'']]],
      find_tables = [(0, 500, 200, 600)]\<rparr>"

text \<open>
  Tables with one data row. Example 2 of the specification: the column header
  "Amount (in thousands)" over the cell "45.2". Example 3: the row labelled "Growth Rate"
  with the cell "12.3%" under a header without a scale word. That row under the header
  of example 2, and the row of example 2 under the header of example 3. Then a page
  with one table box and no words, and a page whose header reads "(in millions)" with
  the table of example 3.
\<close>

definition thousands_table :: table where
  "thousands_table = [[Some ''Item'', Some ''Amount (in thousands)''], [Some ''Revenue'', Some ''45.2'']]"

definition growth_table :: table where
  "growth_table = [[Some ''Item'', Some ''Value''], [Some ''Growth Rate'', Some ''12.3%'']]"

definition thousands_growth_table :: table where
  "thousands_growth_table =
     [[Some ''Item'', Some ''Amount (in thousands)''], [Some ''Growth Rate'', Some ''12.3%'']]"

definition value_table :: table where
  "value_table = [[Some ''Item'', Some ''Value''], [Some ''Revenue'', Some ''45.2'']]"

definition boxed_page :: page where
  "boxed_page = \<lparr>page_height = 1000, extract_words = [], extract_tables = [],
      find_tables = [(0, 500, 200, 600)]\<rparr>"

definition growth_page :: page where
  "growth_page = \<lparr>page_height = 1000,
      extract_words = [mk_word ''(in'' 10 20 30 30, mk_word ''millions)'' 35 20 90 30],
      extract_tables = [growth_table], find_tables = [(0, 500, 200, 600)]\<rparr>"


text \<open>
  A page whose only number is the free text "0", and a page with no number in any text
  that the scan reads (its header cell "4" is not read).
\<close>

definition zero_page :: page where
  "zero_page = \<lparr>page_height = 1000, extract_words = [mk_word ''0'' 10 300 30 310],
      extract_tables = [], find_tables = []\<rparr>"

definition words_page :: page where
  "words_page = \<lparr>page_height = 1000, extract_words = [mk_word ''none'' 10 300 30 310],
      extract_tables = [[[Some ''Item'', Some ''4''], [Some ''n/a'', Some ''-'']]],
      find_tables = [(0, 500, 200, 600)]\<rparr>"

section \<open>Evaluation rules\<close>

lemmas char_eval = code_def is_space_def is_digit_def is_word_def lower_def lower_char_def
  char_of_eq_iff strip_def remove_char_def

lemmas decimal_eval = Decimal_def parse_numeric_def parse_payload_def parse_exponent_def
  is_indicator_def nat_of_digits_def exact_check_def MAX_PREC_def MAX_EMAX_def MIN_ETINY_def
  dec_fix_def prec_def Etop_def Emax_def Emin_def Etiny_def ndigits.simps

lemmas parse_value_eval = parse_value_def parse_value_try_def clean_number_string_def
  MULTIPLIERS_def

lemmas re_eval = NUMBER_RE_def NUMBER_LITERAL_def INLINE_WORD_def CONTEXT_MULTIPLIER_RE_def
  finditer_def search_def match_at_def number_tokens_def group_text_def groups_def substr_def
  chr_eq_def at_boundary_def upt_rec [of _ "Suc _"] upt_rec [of _ "numeral _"] rmatch.simps

lemmas scan_eval = find_highest_value_in_pdf_def scan_pages_def initial_state_def process_page_def
  process_non_table_def non_table_text_def process_table_def process_row_def process_cell_def
  process_token_def pick_context_mult_def is_excluded_row_def column_multipliers_def
  header_cell_multiplier_def table_context_multiplier_def nearby_text_def near_table_def
  update_max_def get_page_level_multiplier_def header_text_def lexicon_multiplier_def
  first_set_group_def first_truthy_group_def is_within_bboxes_def ROW_EXCLUSION_KEYWORDS_def
  decimal_gt_def decimal_eq_def scaled_def enumerate_eq_zip mk_word_def

section \<open>Rounding to the nearest double\<close>

lemma round_half_even_of_int: "round_half_even (of_int k) = k"
  by (simp add: round_half_even_def)

lemma float_exponent_from_eq:
  assumes "2 powi e \<le> \<bar>x\<bar>" "\<bar>x\<bar> < 2 powi (e + 1)" "e \<le> e0" "- 1022 \<le> e"
  shows "float_exponent_from e0 x = e"
  using assms
proof (induction e0 x rule: float_exponent_from.induct)
  case (1 e0 x)
  show ?case
  proof (cases "e0 = e")
    case True
    then show ?thesis using 1 by (subst float_exponent_from.simps) simp
  next
    case False
    then have lt: "e < e0" using 1 by simp
    then have "e + 1 \<le> e0" by simp
    then have "(2::real) powi (e + 1) \<le> 2 powi e0" by (intro power_int_increasing) auto
    then have n: "\<not> 2 powi e0 \<le> \<bar>x\<bar>" using 1 by simp
    show ?thesis using 1 n lt by (subst float_exponent_from.simps) simp
  qed
qed

lemma float_exponent_from_props:
  assumes "- 1022 \<le> e0"
  shows "- 1022 \<le> float_exponent_from e0 x \<and> float_exponent_from e0 x \<le> e0
    \<and> (- 1022 < float_exponent_from e0 x \<longrightarrow> 2 powi (float_exponent_from e0 x) \<le> \<bar>x\<bar>)
    \<and> (\<bar>x\<bar> < 2 powi (e0 + 1) \<longrightarrow> \<bar>x\<bar> < 2 powi (float_exponent_from e0 x + 1))"
  using assms
proof (induction e0 x rule: float_exponent_from.induct)
  case (1 e x)
  show ?case
  proof (cases "e \<le> - 1022 \<or> 2 powi e \<le> \<bar>x\<bar>")
    case True
    then have "float_exponent_from e x = e" by (subst float_exponent_from.simps) simp
    then show ?thesis using True 1(2) by auto
  next
    case False
    then have eq: "float_exponent_from e x = float_exponent_from (e - 1) x"
      by (subst float_exponent_from.simps) simp
    have "- 1022 \<le> e - 1" using False by simp
    from 1(1) [OF False this] False show ?thesis unfolding eq by auto
  qed
qed

lemma float_exponent_eq:
  "2 powi e \<le> \<bar>x\<bar> \<Longrightarrow> \<bar>x\<bar> < 2 powi (e + 1) \<Longrightarrow> - 1022 \<le> e \<Longrightarrow> e \<le> 1023
     \<Longrightarrow> float_exponent x = e"
  unfolding float_exponent_def by (rule float_exponent_from_eq)

lemma float_round_eq:
  "2 powi e \<le> \<bar>x\<bar> \<Longrightarrow> \<bar>x\<bar> < 2 powi (e + 1) \<Longrightarrow> - 1022 \<le> e \<Longrightarrow> e \<le> 1023
     \<Longrightarrow> float_round x = real_of_int (round_half_even (x / 2 powi (e - 52))) * 2 powi (e - 52)"
  by (simp add: float_round_def float_exponent_eq)

text \<open>
  A value \<open>k * 2^q\<close> with \<open>|k| < 2^53\<close> and \<open>q\<close> in the exponent range is a double: rounding
  keeps it. So the float operations are exact on the integers below \<open>2^53\<close>.
\<close>

lemma float_round_exact:
  assumes x: "x = real_of_int k * 2 powi q" and k: "\<bar>k\<bar> < 2 ^ 53" and q: "- 1074 \<le> q" "q \<le> 971"
  shows "float_round x = x"
proof (cases "x = 0")
  case True
  then show ?thesis by (simp add: float_round_def round_half_even_def)
next
  case False
  define e where "e = float_exponent x"
  have ax: "\<bar>x\<bar> = real_of_int \<bar>k\<bar> * 2 powi q" by (simp add: x abs_mult)
  have "real_of_int \<bar>k\<bar> < 2 ^ 53" using k by (metis of_int_less_numeral_power_cancel_iff)
  then have "\<bar>x\<bar> < 2 ^ 53 * 2 powi q" unfolding ax by (intro mult_strict_right_mono) auto
  also have "\<dots> = 2 powi (53 + q)" by (simp add: power_int_add)
  finally have up: "\<bar>x\<bar> < 2 powi (53 + q)" .
  have p: "- 1022 \<le> e \<and> e \<le> 1023 \<and> (- 1022 < e \<longrightarrow> 2 powi e \<le> \<bar>x\<bar>)"
    using float_exponent_from_props [of 1023 x] by (simp add: e_def float_exponent_def)
  have le: "e - 52 \<le> q"
  proof (cases "- 1022 < e")
    case True
    then have "(2::real) powi e < 2 powi (53 + q)" using p up by simp
    have "e < 53 + q"
    proof (rule ccontr)
      assume "\<not> e < 53 + q"
      then have "53 + q \<le> e" by simp
      then have "(2::real) powi (53 + q) \<le> 2 powi e" by (intro power_int_increasing) auto
      with \<open>(2::real) powi e < 2 powi (53 + q)\<close> show False by simp
    qed
    then show ?thesis by simp
  next
    case False
    then show ?thesis using p q by simp
  qed
  then obtain d :: nat where d: "q = e - 52 + int d" by (metis zle_iff_zadd)
  have "x / 2 powi (e - 52) = real_of_int k * (2 powi q / 2 powi (e - 52))" by (simp add: x)
  also have "2 powi q / 2 powi (e - 52) = (2::real) ^ d"
    by (simp add: d power_int_add)
  finally have "x / 2 powi (e - 52) = real_of_int (k * 2 ^ d)" by simp
  then have "round_half_even (x / 2 powi (e - 52)) = k * 2 ^ d"
    by (simp only: round_half_even_of_int)
  then have "float_round x = real_of_int (k * 2 ^ d) * 2 powi (e - 52)"
    by (simp add: float_round_def e_def)
  also have "\<dots> = real_of_int k * 2 powi q" by (simp add: d power_int_add)
  finally show ?thesis by (simp add: x)
qed

lemma float_round_of_int: "\<bar>k\<bar> < 2 ^ 53 \<Longrightarrow> float_round (real_of_int k) = real_of_int k"
  using float_round_exact [of "real_of_int k" k 0] by simp

lemma float_round_numeral [simp]:
  "(numeral n :: int) < 2 ^ 53 \<Longrightarrow> float_round (numeral n) = numeral n"
  using float_round_of_int [of "numeral n"] by simp

lemma float_round_neg_numeral [simp]:
  "(numeral n :: int) < 2 ^ 53 \<Longrightarrow> float_round (- numeral n) = - numeral n"
  using float_round_of_int [of "- numeral n"] by simp

lemma float_round_0 [simp]: "float_round 0 = 0"
  using float_round_of_int [of 0] by simp

lemma float_round_1 [simp]: "float_round 1 = 1"
  using float_round_of_int [of 1] by simp

text \<open>The header threshold of a page of height 1000: \<^verbatim>\<open>1000.0 * 0.15 == 150.0\<close>.\<close>

lemma header_threshold_1000 [simp]: "float_round (1000 * float_0_15) = 150"
  by (subst float_round_eq [where e = 7]) (simp_all add: float_0_15_def round_half_even_def)

section \<open>Decimal comparison is a strict order\<close>

lemma scaled_real:
  assumes "m \<le> e"
  shows "real_of_int (scaled s c e m) = dec_val (Finite s c e) * 10 powi (- m)"
proof -
  have "(10::real) ^ nat (e - m) = 10 powi (e - m)"
    using assms by (simp add: power_int_def)
  also have "\<dots> = 10 powi e * 10 powi (- m)"
    by (simp add: power_int_diff power_int_minus field_simps)
  finally show ?thesis by (simp add: scaled_def)
qed

lemma dec_less_Finite:
  "dec_less (Finite s1 c1 e1) (Finite s2 c2 e2)
     \<longleftrightarrow> dec_val (Finite s1 c1 e1) < dec_val (Finite s2 c2 e2)"
proof -
  let ?m = "min e1 e2"
  have pos: "(0::real) < 10 powi (- ?m)" by simp
  have "scaled s1 c1 e1 ?m < scaled s2 c2 e2 ?m
      \<longleftrightarrow> real_of_int (scaled s1 c1 e1 ?m) < real_of_int (scaled s2 c2 e2 ?m)"
    by simp
  also have "\<dots> \<longleftrightarrow> dec_val (Finite s1 c1 e1) * 10 powi (- ?m)
                      < dec_val (Finite s2 c2 e2) * 10 powi (- ?m)"
    by (simp only: scaled_real [of ?m e1] scaled_real [of ?m e2] min.cobounded1 min.cobounded2)
  also have "\<dots> \<longleftrightarrow> dec_val (Finite s1 c1 e1) < dec_val (Finite s2 c2 e2)"
    using pos by (simp only: mult_less_cancel_right_pos)
  finally show ?thesis by simp
qed

lemma dec_less_key:
  "dec_less a b \<longleftrightarrow> \<not> is_nan a \<and> \<not> is_nan b
     \<and> (dec_rank a < dec_rank b \<or> (dec_rank a = dec_rank b \<and> dec_val a < dec_val b))"
  by (cases a; cases b)
     (auto simp: dec_less_Finite simp del: dec_less.simps(1) dec_val.simps(1))

lemma dec_less_irrefl: "\<not> dec_less a a"
  by (simp add: dec_less_key)

lemma dec_less_trans: "dec_less a b \<Longrightarrow> dec_less b c \<Longrightarrow> dec_less a c"
  by (auto simp: dec_less_key)

section \<open>Properties of parse_value\<close>

lemma multiplier_key_nonempty: "map_of MULTIPLIERS (lower w) = Some m \<Longrightarrow> w \<noteq> []"
  by (auto simp: MULTIPLIERS_def lower_def)

lemma dec_fix_exact:
  "int (ndigits c) \<le> prec \<Longrightarrow> Etiny \<le> e \<Longrightarrow> e \<le> Etop \<Longrightarrow> dec_fix s c e = Inr (Finite s c e)"
  by (auto simp: dec_fix_def Let_def prec_def Etiny_def Etop_def Emax_def Emin_def max_def)

lemma parse_value_try_inline:
  assumes "map_of MULTIPLIERS (lower W) = Some m"
  shows "parse_value_try L (Some W) f =
      (case Decimal (clean_number_string L) of
         Inl ex \<Rightarrow> Inl ex
       | Inr base_number \<Rightarrow> decimal_mul base_number m)"
  using assms multiplier_key_nonempty [OF assms]
  by (simp add: parse_value_try_def split: sum.split)

text \<open>
  C1. When the inline scale word is in the lexicon (compared in lower case),
  \<open>parse_value\<close> gives the same result for any two fallback multipliers: it is the
  parsed literal times the word's factor, as Decimal multiplication computes it (and
  \<^verbatim>\<open>Decimal(0)\<close> when the literal does not parse). When the product fits the 28 digits of
  the context, it is the exact product.
\<close>

theorem parse_value_inline_overrides_fallback:
  assumes "map_of MULTIPLIERS (lower W) = Some m"
  shows "parse_value L (Some W) f1 = parse_value L (Some W) f2
       \<and> parse_value L (Some W) f1 =
           except_invalid (case Decimal (clean_number_string L) of
                             Inl ex \<Rightarrow> Inl ex
                           | Inr base_number \<Rightarrow> decimal_mul base_number m)
       \<and> (\<forall>s c e k. Decimal (clean_number_string L) = Inr (Finite s c e) \<and> m = Finite False k 0
             \<and> int (ndigits (c * k)) \<le> prec \<and> Etiny \<le> e \<and> e \<le> Etop
            \<longrightarrow> parse_value L (Some W) f1 = Inr (Finite s (c * k) e))"
proof -
  note body = parse_value_try_inline [OF assms]
  have indep: "parse_value L (Some W) f1 = parse_value L (Some W) f2"
    by (simp add: parse_value_def body)
  have prod: "parse_value L (Some W) f1 =
      except_invalid (case Decimal (clean_number_string L) of Inl ex \<Rightarrow> Inl ex
                      | Inr base_number \<Rightarrow> decimal_mul base_number m)"
    by (simp add: parse_value_def body)
  have exact: "parse_value L (Some W) f1 = Inr (Finite s (c * k) e)"
    if "Decimal (clean_number_string L) = Inr (Finite s c e)" "m = Finite False k 0"
       "int (ndigits (c * k)) \<le> prec" "Etiny \<le> e" "e \<le> Etop" for s c e k
    using that by (simp add: prod dec_fix_exact)
  from indep prod exact show ?thesis by blast
qed

theorem parse_value_inline_overrides_fallback_witness:
  "map_of MULTIPLIERS (lower ''Million'') = Some (Finite False 1000000 0)
   \<and> parse_value ''$1,234.5'' (Some ''Million'') (Finite False 1 0)
     = parse_value ''$1,234.5'' (Some ''Million'') (Finite False 1000 0)
   \<and> Decimal (clean_number_string ''$1,234.5'') = Inr (Finite False 12345 (- 1))
   \<and> int (ndigits (12345 * 1000000)) \<le> prec \<and> Etiny \<le> - 1 \<and> - 1 \<le> Etop
   \<and> parse_value ''$1,234.5'' (Some ''Million'') (Finite False 1 0)
     = Inr (Finite False (12345 * 1000000) (- 1))"
proof -
  have h: "map_of MULTIPLIERS (lower ''Million'') = Some (Finite False 1000000 0)"
    by (simp add: MULTIPLIERS_def char_eval)
  have d: "Decimal (clean_number_string ''$1,234.5'') = Inr (Finite False 12345 (- 1))"
    by (simp add: clean_number_string_def char_eval decimal_eval)
  have n: "int (ndigits (12345 * 1000000)) \<le> prec \<and> Etiny \<le> - 1 \<and> - 1 \<le> Etop"
    by (simp add: decimal_eval)
  from parse_value_inline_overrides_fallback
         [OF h, of "''$1,234.5''" "Finite False 1 0" "Finite False 1000 0"] h d n
  show ?thesis by blast
qed

section \<open>Every match is in the language of its pattern\<close>


lemma in_rmatch_Seq:
  "(j, cp') \<in> set (rmatch ic (Seq a b) s i cp) \<longleftrightarrow>
     (\<exists>m cpm. (m, cpm) \<in> set (rmatch ic a s i cp) \<and> (j, cp') \<in> set (rmatch ic b s m cpm))"
  by (subst rmatch.simps) auto

lemma in_rmatch_Alt:
  "(j, cp') \<in> set (rmatch ic (Alt a b) s i cp) \<longleftrightarrow>
     (j, cp') \<in> set (rmatch ic a s i cp) \<or> (j, cp') \<in> set (rmatch ic b s i cp)"
  by (subst rmatch.simps) auto

lemma in_rmatch_Group:
  "(j, cp') \<in> set (rmatch ic (Group n r) s i cp) \<longleftrightarrow>
     (\<exists>cp0. (j, cp0) \<in> set (rmatch ic r s i cp) \<and> cp' = cp0(n \<mapsto> (i, j)))"
  by (subst rmatch.simps) auto

lemma in_rmatch_Rep:
  "(j, cp') \<in> set (rmatch ic (Rep lo hi r) s i cp) \<longleftrightarrow>
     (hi \<noteq> Some 0 \<and> (\<exists>m cpm. (m, cpm) \<in> set (rmatch ic r s i cp) \<and> i < m \<and> m \<le> length s
         \<and> (j, cp') \<in> set (rmatch ic (Rep (lo - 1) (map_option (\<lambda>h. h - 1) hi) r) s m cpm)))
     \<or> (lo = 0 \<and> j = i \<and> cp' = cp)"
  by (subst rmatch.simps) (auto split: if_splits)

lemma in_rmatch_Lookahead:
  "(j, cp') \<in> set (rmatch ic (Lookahead r) s i cp) \<Longrightarrow>
     j = i \<and> (\<exists>j0. (j0, cp') \<in> set (rmatch ic r s i cp))"
  by (cases "rmatch ic r s i cp") (auto simp: rmatch.simps(10))

lemma in_rmatch_Boundary:
  "(j, cp') \<in> set (rmatch ic Boundary s i cp) \<longleftrightarrow> j = i \<and> cp' = cp \<and> at_boundary s i"
  by (simp add: rmatch.simps)

lemma in_rmatch_Str:
  "(j, cp') \<in> set (rmatch ic (Str w) s i cp) \<longleftrightarrow>
     j = i + length w \<and> cp' = cp \<and> j \<le> length s \<and> list_all2 (chr_eq ic) (substr s i j) w"
  by (auto simp: rmatch.simps)

lemma in_rmatch_Digit:
  "(j, cp') \<in> set (rmatch ic Digit s i cp) \<longleftrightarrow> j = Suc i \<and> cp' = cp \<and> i < length s \<and> is_digit (s ! i)"
  by (auto simp: rmatch.simps)

lemma in_rmatch_Space:
  "(j, cp') \<in> set (rmatch ic Space s i cp) \<longleftrightarrow> j = Suc i \<and> cp' = cp \<and> i < length s \<and> is_space (s ! i)"
  by (auto simp: rmatch.simps)

lemma in_rmatch_Word:
  "(j, cp') \<in> set (rmatch ic Word s i cp) \<longleftrightarrow> j = Suc i \<and> cp' = cp \<and> i < length s \<and> is_word (s ! i)"
  by (auto simp: rmatch.simps)

lemma substr_append:
  assumes "i \<le> m" "m \<le> j"
  shows "substr s i j = substr s i m @ substr s m j"
proof -
  have "j - i = (m - i) + (j - m)" using assms by arith
  then have "take (j - i) (drop i s) = take (m - i) (drop i s) @ take (j - m) (drop (m - i) (drop i s))"
    by (simp only: take_add)
  moreover have "drop (m - i) (drop i s) = drop m s" using assms by simp
  ultimately show ?thesis by (simp add: substr_def)
qed

lemma substr_Suc: "i < length s \<Longrightarrow> substr s i (Suc i) = [s ! i]"
  by (simp add: substr_def take_Suc_conv_app_nth hd_drop_conv_nth take_Suc)

lemma substr_same: "substr s i i = []"
  by (simp add: substr_def)

lemma reps_step:
  assumes "x \<in> L" "y \<in> reps (lo - 1) (map_option (\<lambda>h. h - 1) hi) L" "hi \<noteq> Some 0"
  shows "x @ y \<in> reps lo hi L"
proof -
  from assms(2) obtain xs where xs: "y = concat xs" "set xs \<subseteq> L" "lo - 1 \<le> length xs"
    "case map_option (\<lambda>h. h - 1) hi of None \<Rightarrow> True | Some h \<Rightarrow> length xs \<le> h"
    by (auto simp: reps_def)
  have "x @ y = concat (x # xs)" using xs by simp
  moreover have "set (x # xs) \<subseteq> L" using xs assms(1) by simp
  moreover have "lo \<le> length (x # xs)" using xs by simp
  moreover have "case hi of None \<Rightarrow> True | Some h \<Rightarrow> length (x # xs) \<le> h"
    using xs(4) assms(3) by (cases hi) auto
  ultimately show ?thesis unfolding reps_def by blast
qed

lemma reps_empty: "[] \<in> reps 0 hi L"
  unfolding reps_def by (rule CollectI, rule exI [of _ "[]"]) (simp split: option.split)

lemma rmatch_sound:
  "(j, cp') \<in> set (rmatch ic r s i cp) \<Longrightarrow> i \<le> length s
     \<Longrightarrow> i \<le> j \<and> j \<le> length s \<and> substr s i j \<in> lang ic r"
proof (induction ic r s i cp arbitrary: j cp' rule: rmatch.induct)
  case (1 ic w s i cp)
  then show ?case by (auto simp: in_rmatch_Str)
next
  case (2 ic s i cp)
  then show ?case by (auto simp: in_rmatch_Digit substr_Suc)
next
  case (3 ic s i cp)
  then show ?case by (auto simp: in_rmatch_Space substr_Suc)
next
  case (4 ic s i cp)
  then show ?case by (auto simp: in_rmatch_Word substr_Suc)
next
  case (5 ic a b s i cp)
  from "5.prems"(1) obtain m cpm where
    a: "(m, cpm) \<in> set (rmatch ic a s i cp)" and b: "(j, cp') \<in> set (rmatch ic b s m cpm)"
    unfolding in_rmatch_Seq by blast
  have A: "i \<le> m \<and> m \<le> length s \<and> substr s i m \<in> lang ic a"
    using a "5.prems"(2) by (rule "5.IH"(1))
  then have ml: "m \<le> length s" by blast
  have B: "m \<le> j \<and> j \<le> length s \<and> substr s m j \<in> lang ic b"
    using a refl b ml by (rule "5.IH"(2))
  have eq: "substr s i j = substr s i m @ substr s m j"
    using A B by (intro substr_append) blast+
  have "substr s i j \<in> lang ic (Seq a b)"
    unfolding eq lang.simps using A B by blast
  with A B show ?case by linarith
next
  case (6 ic a b s i cp)
  from "6.prems"(1) have "(j, cp') \<in> set (rmatch ic a s i cp) \<or> (j, cp') \<in> set (rmatch ic b s i cp)"
    unfolding in_rmatch_Alt .
  then show ?case
  proof
    assume "(j, cp') \<in> set (rmatch ic a s i cp)"
    from "6.IH"(1) [OF this "6.prems"(2)] show ?thesis by simp
  next
    assume "(j, cp') \<in> set (rmatch ic b s i cp)"
    from "6.IH"(2) [OF this "6.prems"(2)] show ?thesis by simp
  qed
next
  case (7 ic lo hi r s i cp)
  from "7.prems"(1) consider
    (iter) m cpm where "hi \<noteq> Some 0" "(m, cpm) \<in> set (rmatch ic r s i cp)" "i < m" "m \<le> length s"
      "(j, cp') \<in> set (rmatch ic (Rep (lo - 1) (map_option (\<lambda>h. h - 1) hi) r) s m cpm)"
    | (stop) "lo = 0" "j = i" "cp' = cp"
    using iffD1 [OF in_rmatch_Rep] by blast
  then show ?case
  proof cases
    case iter
    have A: "i \<le> m \<and> m \<le> length s \<and> substr s i m \<in> lang ic r"
      using iter(1,2) "7.prems"(2) by (rule "7.IH"(1))
    have g: "i < m \<and> m \<le> length s" using iter(3,4) by blast
    have B: "m \<le> j \<and> j \<le> length s
        \<and> substr s m j \<in> lang ic (Rep (lo - 1) (map_option (\<lambda>h. h - 1) hi) r)"
      using iter(1,2) refl g iter(5,4) by (rule "7.IH"(2))
    have eq: "substr s i j = substr s i m @ substr s m j"
      using A B by (intro substr_append) blast+
    have "substr s i m @ substr s m j \<in> reps lo hi (lang ic r)"
      using A B iter(1) by (intro reps_step) (simp_all del: map_option_eq_Some)
    then have "substr s i j \<in> lang ic (Rep lo hi r)"
      unfolding eq lang.simps .
    with A B show ?thesis by linarith
  next
    case stop
    have "substr s i i \<in> lang ic (Rep 0 hi r)"
      unfolding lang.simps substr_same by (rule reps_empty)
    with stop "7.prems"(2) show ?thesis by simp
  qed
next
  case (8 ic n r s i cp)
  from "8.prems"(1) obtain cp0 where "(j, cp0) \<in> set (rmatch ic r s i cp)"
    unfolding in_rmatch_Group by blast
  from "8.IH" [OF this "8.prems"(2)] show ?case by simp
next
  case (9 ic s i cp)
  then show ?case by (auto simp: in_rmatch_Boundary substr_same)
next
  case (10 ic r s i cp)
  from in_rmatch_Lookahead [OF "10.prems"(1)] "10.prems"(2) show ?case
    by (simp add: substr_same)
qed

lemma rmatch_caps:
  "(j, cp') \<in> set (rmatch ic r s i cp) \<Longrightarrow> n \<notin> groups_of r \<Longrightarrow> cp' n = cp n"
proof (induction ic r s i cp arbitrary: j cp' rule: rmatch.induct)
  case (5 ic a b s i cp)
  from "5.prems"(1) obtain m cpm where
    a: "(m, cpm) \<in> set (rmatch ic a s i cp)" and b: "(j, cp') \<in> set (rmatch ic b s m cpm)"
    unfolding in_rmatch_Seq by blast
  have "cpm n = cp n" using a "5.prems"(2) by (intro "5.IH"(1)) simp_all
  moreover have "cp' n = cpm n" using a refl b "5.prems"(2) by (intro "5.IH"(2)) simp_all
  ultimately show ?case by simp
next
  case (6 ic a b s i cp)
  from "6.prems"(1) have "(j, cp') \<in> set (rmatch ic a s i cp) \<or> (j, cp') \<in> set (rmatch ic b s i cp)"
    unfolding in_rmatch_Alt .
  then show ?case
  proof
    assume "(j, cp') \<in> set (rmatch ic a s i cp)"
    then show ?thesis using "6.prems"(2) by (intro "6.IH"(1)) simp_all
  next
    assume "(j, cp') \<in> set (rmatch ic b s i cp)"
    then show ?thesis using "6.prems"(2) by (intro "6.IH"(2)) simp_all
  qed
next
  case (7 ic lo hi r s i cp)
  from "7.prems"(1) consider
    (iter) m cpm where "hi \<noteq> Some 0" "(m, cpm) \<in> set (rmatch ic r s i cp)" "i < m" "m \<le> length s"
      "(j, cp') \<in> set (rmatch ic (Rep (lo - 1) (map_option (\<lambda>h. h - 1) hi) r) s m cpm)"
    | (stop) "lo = 0" "j = i" "cp' = cp"
    using iffD1 [OF in_rmatch_Rep] by blast
  then show ?case
  proof cases
    case iter
    have g: "i < m \<and> m \<le> length s" using iter(3,4) by blast
    have n': "n \<notin> groups_of (Rep (lo - 1) (map_option (\<lambda>h. h - 1) hi) r)"
      using "7.prems"(2) by simp
    have "cpm n = cp n" using iter(1,2) "7.prems"(2) by (intro "7.IH"(1)) simp_all
    moreover have "cp' n = cpm n" using iter(1,2) refl g iter(5) n' by (rule "7.IH"(2))
    ultimately show ?thesis by simp
  next
    case stop
    then show ?thesis by simp
  qed
next
  case (8 ic n' r s i cp)
  from "8.prems"(1) obtain cp0 where 0: "(j, cp0) \<in> set (rmatch ic r s i cp)"
    and 1: "cp' = cp0(n' \<mapsto> (i, j))"
    unfolding in_rmatch_Group by blast
  have "cp0 n = cp n" using 0 "8.prems"(2) by (intro "8.IH") simp_all
  with 1 "8.prems"(2) show ?case by simp
next
  case (10 ic r s i cp)
  from in_rmatch_Lookahead [OF "10.prems"(1)] obtain j0 where
    "(j0, cp') \<in> set (rmatch ic r s i cp)" by blast
  then show ?case using "10.prems"(2) by (intro "10.IH") simp_all
qed (auto simp: in_rmatch_Str in_rmatch_Digit in_rmatch_Space in_rmatch_Word in_rmatch_Boundary)

section \<open>The literals of the number pattern parse as Decimals\<close>

lemma digit_not_space: "is_digit c \<Longrightarrow> \<not> is_space c"
  by (auto simp: is_digit_def is_space_def)

lemma digit_lower: "is_digit c \<Longrightarrow> lower_char c = c"
  by (auto simp: is_digit_def lower_char_def Let_def)

lemma digit_neq: "is_digit c \<Longrightarrow> c \<notin> set ''.,$_+-eEnsi''"
  by (auto simp: is_digit_def code_def)

lemma not_digit [simp]:
  "\<not> is_digit (CHR ''.'')" "\<not> is_digit (CHR '','')" "\<not> is_digit (CHR ''$'')"
  "\<not> is_digit (CHR ''_'')" "\<not> is_digit (CHR ''+'')" "\<not> is_digit (CHR ''-'')"
  "\<not> is_digit (CHR ''e'')" "\<not> is_digit (CHR ''E'')" "\<not> is_digit (CHR ''n'')"
  "\<not> is_digit (CHR ''s'')" "\<not> is_digit (CHR ''i'')"
  by (simp_all add: is_digit_def code_def)

lemma not_space [simp]:
  "\<not> is_space (CHR ''.'')" "\<not> is_space (CHR '','')" "\<not> is_space (CHR ''$'')"
  by (simp_all add: is_space_def code_def)

lemma space_neq: "is_space c \<Longrightarrow> c \<notin> set ''.,$''"
  by (auto simp: is_space_def code_def)

lemma lower_char_symbol:
  assumes "lower_char x = c" and "code c < 65"
  shows "x = c"
proof (cases "(65 \<le> code x \<and> code x \<le> 90) \<or> (192 \<le> code x \<and> code x \<le> 214)
               \<or> (216 \<le> code x \<and> code x \<le> 222)")
  case True
  with assms(1) have "c = char_of (code x + 32)" by (simp add: lower_char_def Let_def)
  then have "code c = (code x + 32) mod 256" by (simp add: code_def)
  with True assms(2) show ?thesis by auto
next
  case False
  with assms(1) show ?thesis by (simp add: lower_char_def Let_def)
qed

lemma chr_eq_symbol: "chr_eq True x c \<Longrightarrow> code c < 65 \<Longrightarrow> x = c"
proof -
  assume a: "chr_eq True x c" and b: "code c < 65"
  then have "lower_char c = c" by (auto simp: lower_char_def Let_def)
  with a have "lower_char x = c" by (simp add: chr_eq_def)
  then show "x = c" using b by (rule lower_char_symbol)
qed


lemma strip_id:
  assumes "s \<noteq> []" "\<not> is_space (hd s)" "\<not> is_space (last s)"
  shows "strip s = s"
proof -
  from assms(1,2) have 1: "dropWhile is_space s = s" by (cases s) auto
  from assms(1,3) have 2: "dropWhile is_space (rev s) = rev s"
    by (cases "rev s") (auto simp: last_rev [symmetric] simp del: last_rev)
  show ?thesis by (simp add: strip_def 1 2)
qed

lemma strip_leading:
  assumes "list_all is_space w" "s \<noteq> []" "\<not> is_space (hd s)" "\<not> is_space (last s)"
  shows "strip (w @ s) = s"
proof -
  from assms(1,2,3) have 1: "dropWhile is_space (w @ s) = s"
    by (cases s) (auto simp: dropWhile_append list_all_iff)
  from assms(2,4) have 2: "dropWhile is_space (rev s) = rev s"
    by (cases "rev s") (auto simp: last_rev [symmetric] simp del: last_rev)
  show ?thesis by (simp add: strip_def 1 2)
qed

lemma nat_of_digits_snoc: "nat_of_digits (s @ [c]) = 10 * nat_of_digits s + (code c - 48)"
  by (simp add: nat_of_digits_def)

lemma nat_of_digits_bound: "list_all is_digit s \<Longrightarrow> nat_of_digits s < 10 ^ length s"
proof (induction s rule: rev_induct)
  case Nil
  then show ?case by (simp add: nat_of_digits_def)
next
  case (snoc c s)
  then have "nat_of_digits s < 10 ^ length s" and "code c - 48 \<le> 9"
    by (auto simp: is_digit_def)
  then have "10 * nat_of_digits s + (code c - 48) < 10 * 10 ^ length s" by arith
  then show ?case by (simp add: nat_of_digits_snoc)
qed

lemma ndigits_bound: "n < 10 ^ k \<Longrightarrow> 0 < k \<Longrightarrow> ndigits n \<le> k"
proof (induction n arbitrary: k rule: ndigits.induct)
  case (1 n)
  show ?case
  proof (cases "n < 10")
    case True
    with "1.prems" show ?thesis by (simp add: ndigits.simps)
  next
    case False
    with "1.prems" obtain k' where k: "k = Suc k'" by (cases k) auto
    with False "1.prems" have "0 < k'" by (cases k') auto
    moreover from "1.prems" k have "n div 10 < 10 ^ k'" by (simp add: less_mult_imp_div_less mult.commute)
    ultimately have "ndigits (n div 10) \<le> k'" using False by (intro "1.IH") simp_all
    with False k show ?thesis by (simp add: ndigits.simps)
  qed
qed


lemma Decimal_digits:
  assumes ds: "ds \<noteq> []" "list_all is_digit ds" and fs: "list_all is_digit fs"
    and len: "int (length ds + length fs) \<le> MAX_PREC"
  shows "Decimal (ds @ (if fs = [] then [] else CHR ''.'' # fs))
           = Inr (Finite False (nat_of_digits (ds @ fs)) (- int (length fs)))"
proof -
  define frac where "frac = (if fs = [] then [] else CHR ''.'' # fs)"
  define s where "s = ds @ frac"
  from ds obtain d ds' where d: "ds = d # ds'" "is_digit d" by (cases ds) auto
  have chars: "\<forall>c\<in>set s. is_digit c \<or> c = CHR ''.''"
    using ds fs by (auto simp: s_def frac_def list_all_iff)
  have hd_s: "hd s = d" and s_ne: "s \<noteq> []" using d by (simp_all add: s_def)
  have last_s: "is_digit (last s)"
    using ds fs by (auto simp: s_def frac_def list_all_iff)
  have strip: "strip s = s"
    using s_ne hd_s d(2) last_s by (intro strip_id) (auto dest: digit_not_space)
  have under: "remove_char (CHR ''_'') s = s"
    using chars by (auto simp: remove_char_def filter_id_conv dest: digit_neq)
  have s_cons: "s = d # (ds' @ frac)" using d by (simp add: s_def)
  have sign: "split_sign s = (False, s)"
    using digit_neq [OF d(2)] by (simp add: s_cons)
  have low: "lower (take 3 s) \<noteq> ''nan''" "lower (take 4 s) \<noteq> ''snan''"
    "lower (take 3 s) \<noteq> ''inf''"
    using digit_neq [OF d(2)] digit_lower [OF d(2)] by (auto simp: s_cons lower_def)
  have noind: "\<forall>c\<in>set s. \<not> is_indicator c"
    using chars by (auto simp: is_indicator_def dest: digit_neq)
  have mant: "takeWhile (\<lambda>c. \<not> is_indicator c) s = s"
    using noind by (simp add: takeWhile_eq_all_conv)
  have rest: "dropWhile (\<lambda>c. \<not> is_indicator c) s = []"
    using noind by (simp add: dropWhile_eq_Nil_conv)
  have nodot: "\<forall>c\<in>set ds. c \<noteq> CHR ''.''"
    using ds by (auto simp: list_all_iff dest: digit_neq)
  have ip: "takeWhile (\<lambda>c. c \<noteq> CHR ''.'') s = ds"
    using nodot by (simp add: s_def frac_def takeWhile_append2)
  have fp: "drop 1 (dropWhile (\<lambda>c. c \<noteq> CHR ''.'') s) = fs"
    using nodot by (simp add: s_def frac_def dropWhile_append2)
  have all: "list_all is_digit (ds @ fs)" using ds fs by simp
  have ne: "ds @ fs \<noteq> []" using ds by simp
  have "nat_of_digits (ds @ fs) < 10 ^ length (ds @ fs)"
    using all by (rule nat_of_digits_bound)
  then have "ndigits (nat_of_digits (ds @ fs)) \<le> length (ds @ fs)"
    using ne by (intro ndigits_bound) simp_all
  then have nd: "int (ndigits (nat_of_digits (ds @ fs))) \<le> MAX_PREC"
    using len by simp
  have lf: "int (length fs) \<le> MAX_PREC" using len by simp
  have exact: "exact_check False (nat_of_digits (ds @ fs)) (0 - int (length fs))
      = Inr (Finite False (nat_of_digits (ds @ fs)) (- int (length fs)))"
    using nd lf by (simp add: exact_check_def MAX_PREC_def MAX_EMAX_def MIN_ETINY_def)
  have "parse_numeric False s = Inr (Finite False (nat_of_digits (ds @ fs)) (- int (length fs)))"
    unfolding parse_numeric_def mant rest Let_def ip fp
    using ds fs ne lf exact by simp
  then have "Decimal s = Inr (Finite False (nat_of_digits (ds @ fs)) (- int (length fs)))"
    unfolding Decimal_def strip under sign using low by simp
  then show ?thesis by (simp add: s_def frac_def)
qed


lemma reps_all:
  assumes "y \<in> reps lo hi L" and "\<And>z. z \<in> L \<Longrightarrow> list_all P z"
  shows "list_all P y"
proof -
  from assms(1) obtain xs where "y = concat xs" "set xs \<subseteq> L" by (auto simp: reps_def)
  with assms(2) show ?thesis by (auto simp: list_all_iff)
qed

lemma reps_nonempty:
  assumes "y \<in> reps lo hi L" and "0 < lo" and "\<And>z. z \<in> L \<Longrightarrow> z \<noteq> []"
  shows "y \<noteq> []"
proof -
  from assms(1) obtain xs where xs: "y = concat xs" "set xs \<subseteq> L" "lo \<le> length xs"
    by (auto simp: reps_def)
  with assms(2) obtain z zs where "xs = z # zs" by (cases xs) auto
  with xs assms(3) show ?thesis by auto
qed

lemma reps_optional:
  assumes "y \<in> reps 0 (Some 1) L"
  shows "y = [] \<or> y \<in> L"
proof -
  from assms obtain xs where xs: "y = concat xs" "set xs \<subseteq> L" "length xs \<le> 1"
    by (auto simp: reps_def)
  show ?thesis
  proof (cases xs)
    case Nil
    with xs show ?thesis by simp
  next
    case (Cons z zs)
    with xs have "zs = []" by simp
    with Cons xs show ?thesis by simp
  qed
qed

lemma lang_symbol: "x \<in> lang True (Str [c]) \<Longrightarrow> code c < 65 \<Longrightarrow> x = [c]"
  by (auto simp: list_all2_Cons2 dest: chr_eq_symbol)

lemma lang_digits:
  assumes "x \<in> lang ic (Rep lo hi Digit)"
  shows "list_all is_digit x" and "0 < lo \<Longrightarrow> x \<noteq> []"
proof -
  from assms have r: "x \<in> reps lo hi {[c] | c. is_digit c}" by simp
  show "list_all is_digit x" using r by (rule reps_all) auto
  show "x \<noteq> []" if "0 < lo" using r that by (rule reps_nonempty) auto
qed

lemma lang_spaces:
  assumes "x \<in> lang ic (Rep lo hi Space)"
  shows "list_all is_space x"
proof -
  from assms have r: "x \<in> reps lo hi {[c] | c. is_space c}" by simp
  show ?thesis using r by (rule reps_all) auto
qed

lemma lang_comma_groups:
  assumes "x \<in> lang True (Rep lo hi (Seq (Str '','') (Rep 3 (Some 3) Digit)))"
  shows "list_all (\<lambda>c. is_digit c \<or> c = CHR '','') x"
proof -
  from assms have r: "x \<in> reps lo hi (lang True (Seq (Str '','') (Rep 3 (Some 3) Digit)))"
    by simp
  show ?thesis using r
  proof (rule reps_all)
    fix z assume "z \<in> lang True (Seq (Str '','') (Rep 3 (Some 3) Digit))"
    then obtain p q where z: "z = p @ q" "p \<in> lang True (Str '','')"
      "q \<in> lang True (Rep 3 (Some 3) Digit)"
      by auto
    from z(2) have "p = '',''" by (rule lang_symbol) (simp add: code_def)
    moreover from z(3) have "list_all is_digit q" by (rule lang_digits)
    ultimately show "list_all (\<lambda>c. is_digit c \<or> c = CHR '','') z"
      using z(1) by (auto simp: list_all_iff)
  qed
qed

lemma lang_number_body:
  assumes "x \<in> lang True (Alt (Seq (Rep 1 (Some 3) Digit)
                                  (Rep 0 None (Seq (Str '','') (Rep 3 (Some 3) Digit))))
                             (Rep 1 None Digit))"
  shows "\<exists>b1 b2. x = b1 @ b2 \<and> b1 \<noteq> [] \<and> list_all is_digit b1
           \<and> list_all (\<lambda>c. is_digit c \<or> c = CHR '','') b2"
proof -
  from assms consider
    (grouped) b1 b2 where "x = b1 @ b2" "b1 \<in> lang True (Rep 1 (Some 3) Digit)"
      "b2 \<in> lang True (Rep 0 None (Seq (Str '','') (Rep 3 (Some 3) Digit)))"
    | (plain) "x \<in> lang True (Rep 1 None Digit)"
    by auto
  then show ?thesis
  proof cases
    case grouped
    from grouped(2) have "list_all is_digit b1" "b1 \<noteq> []" by (simp_all add: lang_digits)
    moreover from grouped(3) have "list_all (\<lambda>c. is_digit c \<or> c = CHR '','') b2"
      by (rule lang_comma_groups)
    ultimately show ?thesis using grouped(1) by blast
  next
    case plain
    then have "list_all is_digit x" "x \<noteq> []" by (simp_all add: lang_digits)
    then have "x = x @ [] \<and> x \<noteq> [] \<and> list_all is_digit x
        \<and> list_all (\<lambda>c. is_digit c \<or> c = CHR '','') []" by simp
    then show ?thesis by blast
  qed
qed

lemma lang_fraction:
  assumes "x \<in> lang True (Rep 0 (Some 1) (Seq (Str ''.'') (Rep 1 None Digit)))"
  shows "\<exists>fs. list_all is_digit fs \<and> x = (if fs = [] then [] else CHR ''.'' # fs)"
proof -
  from assms have "x \<in> reps 0 (Some 1) (lang True (Seq (Str ''.'') (Rep 1 None Digit)))"
    by simp
  then have "x = [] \<or> x \<in> lang True (Seq (Str ''.'') (Rep 1 None Digit))"
    by (rule reps_optional)
  then show ?thesis
  proof
    assume "x = []"
    then have "list_all is_digit [] \<and> x = (if [] = ([]::string) then [] else CHR ''.'' # [])"
      by simp
    then show ?thesis by blast
  next
    assume "x \<in> lang True (Seq (Str ''.'') (Rep 1 None Digit))"
    then obtain p q where z: "x = p @ q" "p \<in> lang True (Str ''.'')"
      "q \<in> lang True (Rep 1 None Digit)"
      by auto
    from z(2) have "p = ''.''" by (rule lang_symbol) (simp add: code_def)
    moreover from z(3) have "list_all is_digit q" "q \<noteq> []" by (simp_all add: lang_digits)
    ultimately have "list_all is_digit q \<and> x = (if q = [] then [] else CHR ''.'' # q)"
      using z(1) by simp
    then show ?thesis by blast
  qed
qed

lemma lang_dollar:
  assumes "x \<in> lang True (Rep 0 (Some 1) (Str ''$''))"
  shows "x = [] \<or> x = ''$''"
proof -
  from assms have "x \<in> reps 0 (Some 1) (lang True (Str ''$''))" by simp
  then have "x = [] \<or> x \<in> lang True (Str ''$'')" by (rule reps_optional)
  then show ?thesis by (auto dest: lang_symbol simp: code_def simp del: lang.simps)
qed

lemma number_literal_shape:
  assumes "x \<in> lang True NUMBER_LITERAL"
  shows "\<exists>ds fs. ds \<noteq> [] \<and> list_all is_digit ds \<and> list_all is_digit fs
           \<and> clean_number_string x = ds @ (if fs = [] then [] else CHR ''.'' # fs)
           \<and> length ds + length fs \<le> length x"
proof -
  from assms obtain d w body frac where x: "x = d @ w @ body @ frac"
    and d: "d \<in> lang True (Rep 0 (Some 1) (Str ''$''))"
    and w: "w \<in> lang True (Rep 0 None Space)"
    and body: "body \<in> lang True (Alt (Seq (Rep 1 (Some 3) Digit)
                                  (Rep 0 None (Seq (Str '','') (Rep 3 (Some 3) Digit))))
                             (Rep 1 None Digit))"
    and frac: "frac \<in> lang True (Rep 0 (Some 1) (Seq (Str ''.'') (Rep 1 None Digit)))"
    unfolding NUMBER_LITERAL_def lang.simps(5) by blast
  from lang_dollar [OF d] have d': "filter (\<lambda>c. c \<noteq> CHR ''$'') d = []" by auto
  from lang_spaces [OF w] have w': "list_all is_space w" .
  from lang_number_body [OF body] obtain b1 b2 where b: "body = b1 @ b2" "b1 \<noteq> []"
    "list_all is_digit b1" "list_all (\<lambda>c. is_digit c \<or> c = CHR '','') b2"
    by blast
  from lang_fraction [OF frac] obtain fs where f: "list_all is_digit fs"
    "frac = (if fs = [] then [] else CHR ''.'' # fs)"
    by blast
  define ds where "ds = b1 @ filter (\<lambda>c. c \<noteq> CHR '','') b2"
  have ds1: "ds \<noteq> []" using b(2) by (simp add: ds_def)
  have ds2: "list_all is_digit ds" using b(3,4) by (auto simp: ds_def list_all_iff)
  have fw: "filter (\<lambda>c. c \<noteq> k) w = w" if "\<not> is_space k" for k
    using w' that by (auto simp: filter_id_conv list_all_iff)
  have fd: "filter (\<lambda>c. c \<noteq> k) ys = ys" if "list_all is_digit ys" "\<not> is_digit k" for k ys
    using that by (auto simp: filter_id_conv list_all_iff)
  have fb2: "filter (\<lambda>c. c \<noteq> CHR ''$'') b2 = b2"
    using b(4) by (auto simp: filter_id_conv list_all_iff)
  have ffrac: "filter (\<lambda>c. c \<noteq> k) frac = frac" if "\<not> is_digit k" "k \<noteq> CHR ''.''" for k
    using f that by (auto simp: filter_id_conv list_all_iff)
  have nodollar: "filter (\<lambda>c. c \<noteq> CHR ''$'') (w @ body @ frac) = w @ body @ frac"
    by (simp add: b(1) fw fd [OF b(3)] fb2 ffrac)
  have nocomma: "filter (\<lambda>c. c \<noteq> CHR '','') (w @ body @ frac) = w @ ds @ frac"
    by (simp add: b(1) ds_def fw fd [OF b(3)] ffrac)
  have rm: "remove_char (CHR '','') (remove_char (CHR ''$'') x) = w @ (ds @ frac)"
    unfolding remove_char_def x filter_append [of _ d] d' using nodollar nocomma by simp
  have hd: "\<not> is_space (hd (ds @ frac))"
    using ds1 ds2 by (cases ds) (auto dest: digit_not_space)
  have last: "\<not> is_space (last (ds @ frac))"
    using ds1 ds2 f by (auto simp: list_all_iff dest: digit_not_space)
  have "clean_number_string x = ds @ frac"
    unfolding clean_number_string_def rm using w' _ hd last by (rule strip_leading) (simp add: ds1)
  moreover have "length ds + length fs \<le> length x"
    using f(2) by (auto simp: x b ds_def intro: le_trans [OF length_filter_le] split: if_splits)
  ultimately show ?thesis using ds1 ds2 f by blast
qed

section \<open>Properties of the scan\<close>

lemma number_tokens_Nil: "number_tokens [] = []"
  by (simp add: re_eval char_eval)

lemma free_text_page:
  "extract_tables page = [] \<Longrightarrow>
   process_page (i, page) st =
     for_each (process_token (int i + 1) (Finite False 1 0)) (number_tokens (non_table_text page)) st"
  by (simp add: process_page_def process_non_table_def number_tokens_Nil del: One_nat_def)

lemma contains_iff: "contains sub s \<longleftrightarrow> (\<exists>pre post. s = pre @ sub @ post)"
proof (induction s)
  case Nil
  then show ?case by auto
next
  case (Cons x xs)
  have "take (length sub) (x # xs) = sub \<longleftrightarrow> (\<exists>post. x # xs = sub @ post)"
    by (metis append_eq_conv_conj append_take_drop_id)
  moreover have "(\<exists>pre post. x # xs = pre @ sub @ post)
      \<longleftrightarrow> (\<exists>post. x # xs = sub @ post) \<or> (\<exists>pre post. xs = pre @ sub @ post)"
  proof
    assume "\<exists>pre post. x # xs = pre @ sub @ post"
    then obtain pre post where e: "x # xs = pre @ sub @ post" by blast
    show "(\<exists>post. x # xs = sub @ post) \<or> (\<exists>pre post. xs = pre @ sub @ post)"
    proof (cases pre)
      case Nil
      then show ?thesis using e by auto
    next
      case (Cons p ps)
      then have "xs = ps @ sub @ post" using e by simp
      then show ?thesis by blast
    qed
  next
    assume "(\<exists>post. x # xs = sub @ post) \<or> (\<exists>pre post. xs = pre @ sub @ post)"
    then show "\<exists>pre post. x # xs = pre @ sub @ post"
    proof
      assume "\<exists>post. x # xs = sub @ post"
      then obtain post where "x # xs = [] @ sub @ post" by auto
      then show ?thesis by blast
    next
      assume "\<exists>pre post. xs = pre @ sub @ post"
      then obtain pre post where "x # xs = (x # pre) @ sub @ post" by auto
      then show ?thesis by blast
    qed
  qed
  ultimately show ?case using Cons.IH by simp
qed

lemma column_multipliers_foldl:
  "foldl (\<lambda>cm (col_idx, header_cell).
              (case header_cell of
                 None \<Rightarrow> cm
               | Some h \<Rightarrow>
                   if h = [] then cm
                   else (case header_cell_multiplier (lower h) of
                           None \<Rightarrow> cm
                         | Some multiplier \<Rightarrow> cm(col_idx \<mapsto> multiplier))))
         cm0 (List.enumerate n hs) col =
     (if n \<le> col \<and> col < n + length hs
      then (case hs ! (col - n) of
              None \<Rightarrow> cm0 col
            | Some h \<Rightarrow>
                if h = [] then cm0 col
                else (case header_cell_multiplier (lower h) of
                        None \<Rightarrow> cm0 col
                      | Some multiplier \<Rightarrow> Some multiplier))
      else cm0 col)"
proof (induction hs arbitrary: n cm0)
  case Nil
  then show ?case by auto
next
  case (Cons h hs)
  let ?F = "\<lambda>cm (col_idx, header_cell).
              (case header_cell of
                 None \<Rightarrow> cm
               | Some h \<Rightarrow>
                   if h = [] then cm
                   else (case header_cell_multiplier (lower h) of
                           None \<Rightarrow> cm
                         | Some multiplier \<Rightarrow> cm(col_idx \<mapsto> multiplier)))"
  have step: "foldl ?F cm0 (List.enumerate n (h # hs)) col
      = foldl ?F (?F cm0 (n, h)) (List.enumerate (Suc n) hs) col"
    by simp
  note ih = Cons.IH [of "?F cm0 (n, h)" "Suc n"]
  have nth: "n < col \<Longrightarrow> (h # hs) ! (col - n) = hs ! (col - Suc n)"
    by (simp add: nth_Cons')
  consider "col < n" | "col = n" | "n < col" by linarith
  then show ?case
  proof cases
    case 1
    then show ?thesis unfolding step ih by (auto split: option.split)
  next
    case 2
    then show ?thesis unfolding step ih by (auto split: option.split)
  next
    case 3
    then show ?thesis unfolding step ih using nth [OF 3]
      by (auto split: option.split)
  qed
qed

lemma column_multipliers_at:
  "column_multipliers header_row col_idx =
     (if col_idx < length header_row
      then (case header_row ! col_idx of
              None \<Rightarrow> None
            | Some h \<Rightarrow> if h = [] then None else header_cell_multiplier (lower h))
      else None)"
  unfolding column_multipliers_def column_multipliers_foldl
  by (simp split: option.split)

lemma process_token_unfold:
  "process_token n mult =
      (\<lambda>(num_str, multiplier_word) st'.
          case parse_value num_str multiplier_word mult of
            Inl ex \<Rightarrow> Inl ex
          | Inr v \<Rightarrow> update_max n v st')"
  by (auto simp: process_token_def fun_eq_iff)

lemma pick_context_mult_unfold:
  "pick_context_mult cm col_idx table_mult excl =
     (case cm col_idx of Some m \<Rightarrow> m | None \<Rightarrow> if excl then Finite False 1 0 else table_mult)"
  by (simp add: pick_context_mult_def split: option.split)

lemma process_cell_unfold:
  "process_cell n cm tm excl =
     (\<lambda>(col_idx, cell) st2.
        case cell of
          None \<Rightarrow> Inr st2
        | Some c \<Rightarrow>
            if c = [] then Inr st2
            else for_each
                   (\<lambda>(num_str, multiplier_word) st3.
                      case parse_value num_str multiplier_word
                             (case cm col_idx of
                                Some m \<Rightarrow> m
                              | None \<Rightarrow> if excl then Finite False 1 0 else tm) of
                        Inl ex \<Rightarrow> Inl ex
                      | Inr v \<Rightarrow> update_max n v st3)
                   (number_tokens c) st2)"
  by (simp add: process_cell_def fun_eq_iff process_token_unfold pick_context_mult_unfold
        del: One_nat_def split: option.split)

lemma process_row_unfold:
  "process_row n cm tm =
     (\<lambda>row st1.
        case row of
          [] \<Rightarrow> Inr st1
        | None # cells \<Rightarrow> Inr st1
        | Some first_cell # cells \<Rightarrow>
            if first_cell = [] then Inr st1
            else for_each
                   (\<lambda>(col_idx, cell) st2.
                      case cell of
                        None \<Rightarrow> Inr st2
                      | Some c \<Rightarrow>
                          if c = [] then Inr st2
                          else for_each
                                 (\<lambda>(num_str, multiplier_word) st3.
                                    case parse_value num_str multiplier_word
                                           (case cm col_idx of
                                              Some m \<Rightarrow> m
                                            | None \<Rightarrow>
                                                if is_excluded_row first_cell then Finite False 1 0
                                                else tm) of
                                      Inl ex \<Rightarrow> Inl ex
                                    | Inr v \<Rightarrow> update_max n v st3)
                                 (number_tokens c) st2)
                   (List.enumerate 0 row) st1)"
  by (simp add: process_row_def fun_eq_iff process_cell_unfold
        del: One_nat_def enumerate_simps split: list.split option.split)

text \<open>
  C2. In a table, the fallback multiplier that the cell at column \<open>col_idx\<close> of a data
  row passes to \<open>parse_value\<close> is the entry of the header row's column multipliers at
  \<open>col_idx\<close> when there is one, also on an excluded row; otherwise 1 when the row is
  excluded, otherwise the table's multiplier. The column multipliers have an entry at a
  column exactly when its header cell is non-empty and a lexicon word occurs in it, and
  a row is excluded exactly when its lower-cased first cell contains one of the
  exclusion keywords.
\<close>

theorem cell_multiplier_precedence:
  "process_table page page_num pm (t_idx, header_row # data_rows) st =
     (if header_row = [] then Inr st
      else if length (find_tables page) \<le> t_idx then Inl IndexError
      else for_each
             (\<lambda>row st1.
                case row of
                  [] \<Rightarrow> Inr st1
                | None # cells \<Rightarrow> Inr st1
                | Some first_cell # cells \<Rightarrow>
                    if first_cell = [] then Inr st1
                    else for_each
                           (\<lambda>(col_idx, cell) st2.
                              case cell of
                                None \<Rightarrow> Inr st2
                              | Some c \<Rightarrow>
                                  if c = [] then Inr st2
                                  else for_each
                                         (\<lambda>(num_str, multiplier_word) st3.
                                            case parse_value num_str multiplier_word
                                                   (case column_multipliers header_row col_idx of
                                                      Some m \<Rightarrow> m
                                                    | None \<Rightarrow>
                                                        if is_excluded_row first_cell
                                                        then Finite False 1 0
                                                        else table_context_multiplier pm
                                                               (find_tables page ! t_idx)
                                                               (extract_words page)) of
                                              Inl ex \<Rightarrow> Inl ex
                                            | Inr v \<Rightarrow> update_max page_num v st3)
                                         (number_tokens c) st2)
                           (List.enumerate 0 row) st1)
             data_rows st)
   \<and> column_multipliers header_row col_idx =
       (if col_idx < length header_row
        then (case header_row ! col_idx of
                None \<Rightarrow> None
              | Some h \<Rightarrow> if h = [] then None else header_cell_multiplier (lower h))
        else None)
   \<and> is_excluded_row first_cell =
       (\<exists>kw \<in> set ROW_EXCLUSION_KEYWORDS. \<exists>pre post. lower first_cell = pre @ kw @ post)
   \<and> pick_context_mult col_mults col_idx table_mult excluded =
       (case col_mults col_idx of
          Some m \<Rightarrow> m
        | None \<Rightarrow> if excluded then Finite False 1 0 else table_mult)
   \<and> pick_context_mult (col_mults(col_idx \<mapsto> m)) col_idx table_mult True = m
   \<and> process_cell page_num col_mults table_mult excluded (col_idx, Some c) st =
       (if c = [] then Inr st
        else for_each (\<lambda>(num_str, multiplier_word) st'.
                         case parse_value num_str multiplier_word
                                (case col_mults col_idx of
                                   Some m \<Rightarrow> m
                                 | None \<Rightarrow> if excluded then Finite False 1 0 else table_mult) of
                           Inl ex \<Rightarrow> Inl ex
                         | Inr v \<Rightarrow> update_max page_num v st')
               (number_tokens c) st)"
proof -
  have tab: "process_table page page_num pm (t_idx, header_row # data_rows) st =
     (if header_row = [] then Inr st
      else if length (find_tables page) \<le> t_idx then Inl IndexError
      else for_each
             (process_row page_num (column_multipliers header_row)
                (table_context_multiplier pm (find_tables page ! t_idx) (extract_words page)))
             data_rows st)"
    by (simp add: process_table_def)
  have excl: "is_excluded_row first_cell =
       (\<exists>kw \<in> set ROW_EXCLUSION_KEYWORDS. \<exists>pre post. lower first_cell = pre @ kw @ post)"
    by (simp only: is_excluded_row_def list_ex_iff contains_iff)
  have cell: "process_cell page_num col_mults table_mult excluded (col_idx, Some c) st =
       (if c = [] then Inr st
        else for_each (\<lambda>(num_str, multiplier_word) st'.
                         case parse_value num_str multiplier_word
                                (case col_mults col_idx of
                                   Some m \<Rightarrow> m
                                 | None \<Rightarrow> if excluded then Finite False 1 0 else table_mult) of
                           Inl ex \<Rightarrow> Inl ex
                         | Inr v \<Rightarrow> update_max page_num v st')
               (number_tokens c) st)"
    by (simp add: process_cell_unfold)
  have upd: "pick_context_mult (col_mults(col_idx \<mapsto> m)) col_idx table_mult True = m"
    by (simp add: pick_context_mult_def)
  have row: "process_table page page_num pm (t_idx, header_row # data_rows) st =
     (if header_row = [] then Inr st
      else if length (find_tables page) \<le> t_idx then Inl IndexError
      else for_each
             (\<lambda>row st1.
                case row of
                  [] \<Rightarrow> Inr st1
                | None # cells \<Rightarrow> Inr st1
                | Some first_cell # cells \<Rightarrow>
                    if first_cell = [] then Inr st1
                    else for_each
                           (\<lambda>(col_idx, cell) st2.
                              case cell of
                                None \<Rightarrow> Inr st2
                              | Some c \<Rightarrow>
                                  if c = [] then Inr st2
                                  else for_each
                                         (\<lambda>(num_str, multiplier_word) st3.
                                            case parse_value num_str multiplier_word
                                                   (case column_multipliers header_row col_idx of
                                                      Some m \<Rightarrow> m
                                                    | None \<Rightarrow>
                                                        if is_excluded_row first_cell
                                                        then Finite False 1 0
                                                        else table_context_multiplier pm
                                                               (find_tables page ! t_idx)
                                                               (extract_words page)) of
                                              Inl ex \<Rightarrow> Inl ex
                                            | Inr v \<Rightarrow> update_max page_num v st3)
                                         (number_tokens c) st2)
                           (List.enumerate 0 row) st1)
             data_rows st)"
    unfolding tab process_row_unfold by (rule refl)
  from row column_multipliers_at [of header_row col_idx] excl
    pick_context_mult_unfold [of col_mults col_idx table_mult excluded] upd cell
  show ?thesis by (intro conjI)
qed


theorem cell_multiplier_precedence_witness:
  "process_table boxed_page 1 (Finite False 1000000 0) (0, thousands_table) initial_state
     = Inr \<lparr>max_value = Finite False 452000 (- 1), max_page = 1\<rparr>
   \<and> process_table boxed_page 1 (Finite False 1000000 0) (0, growth_table) initial_state
     = Inr \<lparr>max_value = Finite False 123 (- 1), max_page = 1\<rparr>
   \<and> process_table boxed_page 1 (Finite False 1000000 0) (0, thousands_growth_table) initial_state
     = Inr \<lparr>max_value = Finite False 123000 (- 1), max_page = 1\<rparr>
   \<and> process_table boxed_page 1 (Finite False 1000000 0) (0, value_table) initial_state
     = Inr \<lparr>max_value = Finite False 452000000 (- 1), max_page = 1\<rparr>
   \<and> column_multipliers [Some ''Item'', Some ''Amount (in thousands)''] 0 = None
   \<and> column_multipliers [Some ''Item'', Some ''Amount (in thousands)''] 1 = Some (Finite False 1000 0)
   \<and> is_excluded_row ''Growth Rate''
   \<and> \<not> is_excluded_row ''Revenue''
   \<and> get_page_level_multiplier growth_page = Finite False 1000000 0
   \<and> process_page (0, growth_page) initial_state
       = Inr \<lparr>max_value = Finite False 123 (- 1), max_page = 1\<rparr>"
proof -
  have lw: "lower ''Item'' = ''item''" "lower ''Amount (in thousands)'' = ''amount (in thousands)''"
    "lower ''Value'' = ''value''" "lower ''Growth Rate'' = ''growth rate''"
    by (simp_all add: char_eval)
  have hm: "header_cell_multiplier ''item'' = None" "header_cell_multiplier ''value'' = None"
    "header_cell_multiplier ''amount (in thousands)'' = Some (Finite False 1000 0)"
    by (simp_all add: header_cell_multiplier_def MULTIPLIERS_def re_eval char_eval)
  have c0: "column_multipliers [Some ''Item'', Some ''Amount (in thousands)''] 0 = None"
    using cell_multiplier_precedence
            [where header_row = "[Some ''Item'', Some ''Amount (in thousands)'']" and col_idx = 0,
             THEN conjunct2, THEN conjunct1]
    by (simp add: lw hm)
  have c1: "column_multipliers [Some ''Item'', Some ''Amount (in thousands)''] 1 = Some (Finite False 1000 0)"
    using cell_multiplier_precedence
            [where header_row = "[Some ''Item'', Some ''Amount (in thousands)'']" and col_idx = 1,
             THEN conjunct2, THEN conjunct1]
    by (simp add: lw hm)
  have d0: "column_multipliers [Some ''Item'', Some ''Value''] 0 = None"
    using cell_multiplier_precedence
            [where header_row = "[Some ''Item'', Some ''Value'']" and col_idx = 0,
             THEN conjunct2, THEN conjunct1]
    by (simp add: lw hm)
  have d1: "column_multipliers [Some ''Item'', Some ''Value''] 1 = None"
    using cell_multiplier_precedence
            [where header_row = "[Some ''Item'', Some ''Value'']" and col_idx = 1,
             THEN conjunct2, THEN conjunct1]
    by (simp add: lw hm)
  have "''rate'' \<in> set ROW_EXCLUSION_KEYWORDS \<and> lower ''Growth Rate'' = ''growth '' @ ''rate'' @ []"
    by (simp add: ROW_EXCLUSION_KEYWORDS_def lw)
  then have "\<exists>kw \<in> set ROW_EXCLUSION_KEYWORDS. \<exists>pre post. lower ''Growth Rate'' = pre @ kw @ post"
    by blast
  then have e1: "is_excluded_row ''Growth Rate''"
    using cell_multiplier_precedence
            [where first_cell = "''Growth Rate''", THEN conjunct2, THEN conjunct2, THEN conjunct1]
    by (simp only:)
  have e2: "\<not> is_excluded_row ''Revenue''"
    by (simp add: is_excluded_row_def ROW_EXCLUSION_KEYWORDS_def char_eval)
  have tk: "number_tokens ''Revenue'' = []" "number_tokens ''Growth Rate'' = []"
    "number_tokens ''45.2'' = [(''45.2'', None)]" "number_tokens ''12.3%'' = [(''12.3'', None)]"
    by (simp_all add: re_eval char_eval)
  have tm: "table_context_multiplier (Finite False 1000000 0) (find_tables boxed_page ! 0)
              (extract_words boxed_page) = Finite False 1000000 0"
    by (simp add: boxed_page_def table_context_multiplier_def nearby_text_def re_eval char_eval)
  have ln: "find_tables boxed_page \<noteq> []"
    by (simp add: boxed_page_def)
  have c1': "column_multipliers [Some ''Item'', Some ''Amount (in thousands)''] (Suc 0)
      = Some (Finite False 1000 0)"
    using c1 by simp
  have d1': "column_multipliers [Some ''Item'', Some ''Value''] (Suc 0) = None"
    using d1 by simp
  have pv: "parse_value ''45.2'' None (Finite False 1000 0) = Inr (Finite False 452000 (- 1))"
    "parse_value ''12.3'' None (Finite False 1 0) = Inr (Finite False 123 (- 1))"
    "parse_value ''12.3'' None (Finite False 1000 0) = Inr (Finite False 123000 (- 1))"
    "parse_value ''45.2'' None (Finite False 1000000 0) = Inr (Finite False 452000000 (- 1))"
    by (simp_all add: parse_value_eval char_eval decimal_eval)
  have um: "update_max 1 (Finite False k (- 1)) initial_state
      = Inr \<lparr>max_value = Finite False k (- 1), max_page = 1\<rparr>" for k
    by (simp add: update_max_def decimal_gt_def initial_state_def)
  have t1: "process_table boxed_page 1 (Finite False 1000000 0) (0, thousands_table) initial_state
     = Inr \<lparr>max_value = Finite False 452000 (- 1), max_page = 1\<rparr>"
    unfolding thousands_table_def
    using cell_multiplier_precedence
            [where page = boxed_page and page_num = 1 and pm = "Finite False 1000000 0"
               and t_idx = 0 and header_row = "[Some ''Item'', Some ''Amount (in thousands)'']"
               and data_rows = "[[Some ''Revenue'', Some ''45.2'']]" and st = initial_state,
             THEN conjunct1]
    by (simp add: ln tm enumerate_eq_zip tk c0 c1' e1 e2 pv um del: One_nat_def)
  have t2: "process_table boxed_page 1 (Finite False 1000000 0) (0, growth_table) initial_state
     = Inr \<lparr>max_value = Finite False 123 (- 1), max_page = 1\<rparr>"
    unfolding growth_table_def
    using cell_multiplier_precedence
            [where page = boxed_page and page_num = 1 and pm = "Finite False 1000000 0"
               and t_idx = 0 and header_row = "[Some ''Item'', Some ''Value'']"
               and data_rows = "[[Some ''Growth Rate'', Some ''12.3%'']]" and st = initial_state,
             THEN conjunct1]
    by (simp add: ln tm enumerate_eq_zip tk d0 d1' e1 e2 pv um del: One_nat_def)
  have t3: "process_table boxed_page 1 (Finite False 1000000 0) (0, thousands_growth_table)
              initial_state
     = Inr \<lparr>max_value = Finite False 123000 (- 1), max_page = 1\<rparr>"
    unfolding thousands_growth_table_def
    using cell_multiplier_precedence
            [where page = boxed_page and page_num = 1 and pm = "Finite False 1000000 0"
               and t_idx = 0 and header_row = "[Some ''Item'', Some ''Amount (in thousands)'']"
               and data_rows = "[[Some ''Growth Rate'', Some ''12.3%'']]" and st = initial_state,
             THEN conjunct1]
    by (simp add: ln tm enumerate_eq_zip tk c0 c1' e1 e2 pv um del: One_nat_def)
  have t4: "process_table boxed_page 1 (Finite False 1000000 0) (0, value_table) initial_state
     = Inr \<lparr>max_value = Finite False 452000000 (- 1), max_page = 1\<rparr>"
    unfolding value_table_def
    using cell_multiplier_precedence
            [where page = boxed_page and page_num = 1 and pm = "Finite False 1000000 0"
               and t_idx = 0 and header_row = "[Some ''Item'', Some ''Value'']"
               and data_rows = "[[Some ''Revenue'', Some ''45.2'']]" and st = initial_state,
             THEN conjunct1]
    by (simp add: ln tm enumerate_eq_zip tk d0 d1' e1 e2 pv um del: One_nat_def)
  have gp: "get_page_level_multiplier growth_page = Finite False 1000000 0"
    by (simp add: growth_page_def scan_eval re_eval char_eval MULTIPLIERS_def)
  have gl: "find_tables growth_page \<noteq> []"
    by (simp add: growth_page_def)
  have gt: "table_context_multiplier (Finite False 1000000 0) (find_tables growth_page ! 0)
              (extract_words growth_page) = Finite False 1000000 0"
    by (simp add: growth_page_def table_context_multiplier_def nearby_text_def near_table_def
          mk_word_def re_eval char_eval)
  have t5: "process_table growth_page 1 (Finite False 1000000 0) (0, growth_table) initial_state
     = Inr \<lparr>max_value = Finite False 123 (- 1), max_page = 1\<rparr>"
    unfolding growth_table_def
    using cell_multiplier_precedence
            [where page = growth_page and page_num = 1 and pm = "Finite False 1000000 0"
               and t_idx = 0 and header_row = "[Some ''Item'', Some ''Value'']"
               and data_rows = "[[Some ''Growth Rate'', Some ''12.3%'']]" and st = initial_state,
             THEN conjunct1]
    by (simp add: gl gt enumerate_eq_zip tk d0 d1' e1 e2 pv um del: One_nat_def)
  have nt: "process_non_table growth_page 1
              \<lparr>max_value = Finite False 123 (- 1), max_page = 1\<rparr>
            = Inr \<lparr>max_value = Finite False 123 (- 1), max_page = 1\<rparr>"
    by (simp add: growth_page_def growth_table_def scan_eval re_eval char_eval)
  have et: "extract_tables growth_page = [growth_table]"
    by (simp add: growth_page_def)
  have pp: "process_page (0, growth_page) initial_state
       = Inr \<lparr>max_value = Finite False 123 (- 1), max_page = 1\<rparr>"
    by (simp add: process_page_def et enumerate_eq_zip gp t5 nt del: One_nat_def)
  from t1 t2 t3 t4 c0 c1 e1 e2 gp pp show ?thesis by (intro conjI)
qed

text \<open>
  C3. After the tables of a page, the numbers of the text outside the table boxes are
  resolved with the fallback multiplier 1, whatever the page-level multiplier is: only
  an inline scale word scales them.
\<close>

theorem free_text_uses_multiplier_one:
  "process_page (i, page) st =
     (case for_each (process_table page (int i + 1) (get_page_level_multiplier page))
             (List.enumerate 0 (extract_tables page)) st of
        Inl ex \<Rightarrow> Inl ex
      | Inr st' \<Rightarrow>
          for_each (\<lambda>(num_str, multiplier_word) st''.
                      case parse_value num_str multiplier_word (Finite False 1 0) of
                        Inl ex \<Rightarrow> Inl ex
                      | Inr v \<Rightarrow> update_max (int i + 1) v st'')
            (number_tokens (non_table_text page)) st')"
proof -
  have tok: "process_token n (Finite False 1 0) =
      (\<lambda>(num_str, multiplier_word) st''.
          case parse_value num_str multiplier_word (Finite False 1 0) of
            Inl ex \<Rightarrow> Inl ex
          | Inr v \<Rightarrow> update_max n v st'')" for n
    by (auto simp: process_token_def fun_eq_iff)
  show ?thesis
    by (simp add: process_page_def process_non_table_def tok number_tokens_Nil
          del: One_nat_def split: sum.split)
qed

theorem free_text_uses_multiplier_one_witness:
  "get_page_level_multiplier ex4_page = Finite False 1000000000 0
   \<and> process_page (0, ex4_page) initial_state
       = Inr \<lparr>max_value = Finite False 500000000 0, max_page = 1\<rparr>"
proof -
  have m: "get_page_level_multiplier ex4_page = Finite False 1000000000 0"
    by (simp add: ex4_page_def scan_eval re_eval char_eval MULTIPLIERS_def)
  have w: "number_tokens (non_table_text ex4_page) = [(''$500'', Some ''million'')]"
    by (simp add: ex4_page_def scan_eval re_eval char_eval)
  have r: "for_each (\<lambda>(num_str, multiplier_word) st''.
                      case parse_value num_str multiplier_word (Finite False 1 0) of
                        Inl ex \<Rightarrow> Inl ex
                      | Inr v \<Rightarrow> update_max (int 0 + 1) v st'')
            [(''$500'', Some ''million'')] initial_state
          = Inr \<lparr>max_value = Finite False 500000000 0, max_page = 1\<rparr>"
    by (simp add: scan_eval parse_value_eval char_eval decimal_eval)
  have t: "extract_tables ex4_page = []" by (simp add: ex4_page_def)
  from free_text_uses_multiplier_one [of 0 ex4_page initial_state] m w r t
  show ?thesis by simp
qed

section \<open>The running maximum\<close>

lemma advances_refl: "advances P st st"
  by (simp add: advances_def)

lemma advances_trans: "advances P a b \<Longrightarrow> advances P b c \<Longrightarrow> advances P a c"
  by (auto simp: advances_def dest: dec_less_trans)

lemma update_max_cases:
  assumes "update_max n v st = Inr st'"
  shows "(dec_less (max_value st) v \<and> st' = \<lparr>max_value = v, max_page = n\<rparr>)
       \<or> (\<not> dec_less (max_value st) v \<and> st' = st)"
  using assms by (auto simp: update_max_def decimal_gt_def split: if_splits bool.splits)

lemma update_max_not_nan:
  "update_max n v st = Inr st' \<Longrightarrow> \<not> is_nan v \<and> \<not> is_nan (max_value st)"
  by (auto simp: update_max_def decimal_gt_def split: if_splits)

lemma update_max_advances: "update_max n v st = Inr st' \<Longrightarrow> advances n st st'"
  by (drule update_max_cases) (auto simp: advances_def)

lemma for_each_advances:
  assumes "\<And>x a b. f x a = Inr b \<Longrightarrow> advances P a b"
  shows "for_each f xs st = Inr st' \<Longrightarrow> advances P st st'"
proof (induction xs arbitrary: st)
  case Nil
  then show ?case by (simp add: advances_refl)
next
  case (Cons x xs)
  from Cons.prems obtain st1 where 1: "f x st = Inr st1" and 2: "for_each f xs st1 = Inr st'"
    by (auto split: sum.splits)
  have "advances P st st1" using 1 by (rule assms)
  moreover have "advances P st1 st'" using 2 by (rule Cons.IH)
  ultimately show ?case by (rule advances_trans)
qed

lemma process_token_advances: "process_token n m tok st = Inr st' \<Longrightarrow> advances n st st'"
  by (auto simp: process_token_def split: prod.splits sum.splits dest: update_max_advances)

lemma process_cell_advances:
  assumes "process_cell n cm tm ex ic st = Inr st'"
  shows "advances n st st'"
proof -
  obtain col_idx cell where ic: "ic = (col_idx, cell)" by (cases ic)
  show ?thesis
  proof (cases "truthy cell")
    case False
    with assms ic show ?thesis
      by (cases cell) (auto simp: process_cell_def advances_refl)
  next
    case True
    then obtain c where c: "cell = Some c" "c \<noteq> []" by (cases cell) auto
    with assms ic have "for_each (process_token n (pick_context_mult cm col_idx tm ex))
        (number_tokens c) st = Inr st'"
      by (simp add: process_cell_def)
    then show ?thesis by (rule for_each_advances [rotated]) (rule process_token_advances)
  qed
qed

lemma process_row_cases:
  "process_row n cm tm row st =
     (if row = [] \<or> \<not> truthy (hd row) then Inr st
      else for_each (process_cell n cm tm (is_excluded_row (the (hd row)))) (List.enumerate 0 row) st)"
  by (cases row; cases "hd row") (auto simp: process_row_def simp del: enumerate_simps)

lemma process_row_advances:
  assumes "process_row n cm tm row st = Inr st'"
  shows "advances n st st'"
proof (cases "row = [] \<or> \<not> truthy (hd row)")
  case True
  with assms show ?thesis by (simp add: process_row_cases advances_refl)
next
  case False
  with assms have "for_each (process_cell n cm tm (is_excluded_row (the (hd row))))
      (List.enumerate 0 row) st = Inr st'"
    by (simp add: process_row_cases)
  then show ?thesis by (rule for_each_advances [rotated]) (rule process_cell_advances)
qed

lemma process_table_cases:
  "process_table page n pm (t_idx, table) st =
     (if table = [] \<or> hd table = [] then Inr st
      else if length (find_tables page) \<le> t_idx then Inl IndexError
      else for_each
             (process_row n (column_multipliers (hd table))
                (table_context_multiplier pm (find_tables page ! t_idx) (extract_words page)))
             (tl table) st)"
  by (cases table) (auto simp: process_table_def)

lemma process_table_advances:
  assumes "process_table page n pm it st = Inr st'"
  shows "advances n st st'"
proof -
  obtain t_idx table where it: "it = (t_idx, table)" by (cases it)
  show ?thesis
  proof (cases "table = [] \<or> hd table = []")
    case True
    with assms it show ?thesis by (simp add: process_table_cases advances_refl)
  next
    case False
    with assms it have "for_each
             (process_row n (column_multipliers (hd table))
                (table_context_multiplier pm (find_tables page ! t_idx) (extract_words page)))
             (tl table) st = Inr st'"
      by (simp add: process_table_cases split: if_splits)
    then show ?thesis by (rule for_each_advances [rotated]) (rule process_row_advances)
  qed
qed

lemma process_non_table_advances:
  assumes "process_non_table page n st = Inr st'"
  shows "advances n st st'"
proof (cases "non_table_text page = []")
  case True
  with assms show ?thesis by (simp add: process_non_table_def advances_refl)
next
  case False
  with assms have "for_each (process_token n (Finite False 1 0))
      (number_tokens (non_table_text page)) st = Inr st'"
    by (simp add: process_non_table_def del: One_nat_def)
  then show ?thesis by (rule for_each_advances [rotated]) (rule process_token_advances)
qed

lemma process_page_advances:
  assumes "process_page ip st = Inr st'"
  shows "advances (int (fst ip) + 1) st st'"
proof -
  obtain i page where ip: "ip = (i, page)" by (cases ip)
  from assms ip obtain st1 where
    1: "for_each (process_table page (int i + 1) (get_page_level_multiplier page))
          (List.enumerate 0 (extract_tables page)) st = Inr st1"
    and 2: "process_non_table page (int i + 1) st1 = Inr st'"
    by (auto simp: process_page_def split: sum.splits)
  from 1 have "advances (int i + 1) st st1" by (rule for_each_advances [rotated]) (rule process_table_advances)
  moreover from 2 have "advances (int i + 1) st1 st'" by (rule process_non_table_advances)
  ultimately show ?thesis using ip by (auto intro: advances_trans)
qed

text \<open>
  C8. The running maximum changes only when the new value is strictly greater than it;
  a value equal to it leaves the state, and so the recorded page, as it was. So
  processing a page either leaves the state unchanged or makes the maximum strictly
  greater, with that page recorded. "Strictly greater" is a strict order on Decimals.
\<close>

theorem running_maximum_monotone:
  "(update_max n v st = Inr st' \<longrightarrow>
      (dec_less (max_value st) v \<and> st' = \<lparr>max_value = v, max_page = n\<rparr>)
      \<or> (\<not> dec_less (max_value st) v \<and> st' = st))
   \<and> (decimal_eq v (max_value st) = Inr True \<longrightarrow> update_max n v st = Inr st)
   \<and> (process_page (k, page) st = Inr st'' \<longrightarrow>
        st'' = st \<or> (dec_less (max_value st) (max_value st'') \<and> max_page st'' = int k + 1))
   \<and> \<not> dec_less a a
   \<and> (dec_less a b \<and> dec_less b c \<longrightarrow> dec_less a c)"
proof -
  have tie: "update_max n v st = Inr st" if "decimal_eq v (max_value st) = Inr True"
    using that by (auto simp: decimal_eq_def update_max_def decimal_gt_def split: if_splits)
  have page: "st'' = st \<or> (dec_less (max_value st) (max_value st'') \<and> max_page st'' = int k + 1)"
    if "process_page (k, page) st = Inr st''"
    using process_page_advances [OF that] by (simp add: advances_def)
  show ?thesis
    using update_max_cases [of n v st st'] tie page dec_less_irrefl [of a]
      dec_less_trans [of a b c]
    by blast
qed

theorem running_maximum_monotone_witness:
  "decimal_eq (Finite False 50 (- 1)) (Finite False 5 0) = Inr True
   \<and> update_max 2 (Finite False 50 (- 1)) \<lparr>max_value = Finite False 5 0, max_page = 1\<rparr>
       = Inr \<lparr>max_value = Finite False 5 0, max_page = 1\<rparr>
   \<and> process_page (1, tie_page2) \<lparr>max_value = Finite False 5 0, max_page = 1\<rparr>
       = Inr \<lparr>max_value = Finite False 5 0, max_page = 1\<rparr>
   \<and> process_page (0, tie_page1) initial_state = Inr \<lparr>max_value = Finite False 5 0, max_page = 1\<rparr>
   \<and> dec_less (max_value initial_state) (Finite False 5 0)"
proof -
  let ?st = "\<lparr>max_value = Finite False 5 0, max_page = 1\<rparr>"
  have e: "decimal_eq (Finite False 50 (- 1)) (max_value ?st) = Inr True"
    by (simp add: decimal_eq_def scaled_def)
  have t1: "number_tokens (non_table_text tie_page1) = [(''5'', None)]"
    by (simp add: tie_page1_def scan_eval re_eval char_eval)
  have t2: "number_tokens (non_table_text tie_page2) = [(''5.0'', None), (''3'', None)]"
    by (simp add: tie_page2_def scan_eval re_eval char_eval)
  have "process_page (0, tie_page1) initial_state =
      for_each (process_token (int 0 + 1) (Finite False 1 0)) [(''5'', None)] initial_state"
    using free_text_page [of tie_page1 0 initial_state] t1 by (simp add: tie_page1_def)
  also have "\<dots> = Inr ?st"
    by (simp add: scan_eval parse_value_eval char_eval decimal_eval)
  finally have p1: "process_page (0, tie_page1) initial_state = Inr ?st" .
  have "process_page (1, tie_page2) ?st =
      for_each (process_token (int 1 + 1) (Finite False 1 0)) [(''5.0'', None), (''3'', None)] ?st"
    using free_text_page [of tie_page2 1 ?st] t2 by (simp add: tie_page2_def)
  also have "\<dots> = Inr ?st"
    by (simp add: scan_eval parse_value_eval char_eval decimal_eval)
  finally have p2: "process_page (1, tie_page2) ?st = Inr ?st" .
  have l: "dec_less (max_value initial_state) (Finite False 5 0)"
    by (simp add: initial_state_def)
  from running_maximum_monotone
         [of 2 "Finite False 50 (- 1)" ?st ?st 1 tie_page2 ?st "Finite False 5 0"
             "Finite False 5 0" "Finite False 5 0"]
       e p1 p2 l
  show ?thesis by simp
qed

section \<open>Which cells of a table are scanned\<close>

lemma below_advances:
  "\<not> dec_less (max_value a) v \<Longrightarrow> advances n a b \<Longrightarrow> \<not> dec_less (max_value b) v"
  by (auto simp: advances_def dest: dec_less_trans)

lemma update_max_below:
  "update_max n v st = Inr st' \<Longrightarrow> \<not> dec_less (max_value st') v"
  by (drule update_max_cases) (auto simp: dec_less_irrefl)

lemma for_each_reaches:
  assumes adv: "\<And>y a b. f y a = Inr b \<Longrightarrow> advances n a b"
    and hit: "\<And>a b. f x a = Inr b \<Longrightarrow> Q b"
    and keep: "\<And>a b. Q a \<Longrightarrow> advances n a b \<Longrightarrow> Q b"
  shows "for_each f xs st = Inr st' \<Longrightarrow> x \<in> set xs \<Longrightarrow> Q st'"
proof (induction xs arbitrary: st)
  case Nil
  then show ?case by simp
next
  case (Cons y ys)
  from Cons.prems(1) obtain st1 where 1: "f y st = Inr st1" and 2: "for_each f ys st1 = Inr st'"
    by (auto split: sum.splits)
  show ?case
  proof (cases "x = y")
    case True
    with 1 have "Q st1" by (simp add: hit)
    moreover from 2 have "advances n st1 st'" by (rule for_each_advances [rotated]) (rule adv)
    ultimately show ?thesis by (rule keep)
  next
    case False
    with Cons.prems(2) have "x \<in> set ys" by simp
    with 2 show ?thesis by (rule Cons.IH)
  qed
qed

lemma process_token_below:
  assumes "process_token n mult (num_str, w) st = Inr st'"
  shows "\<exists>v. parse_value num_str w mult = Inr v \<and> \<not> dec_less (max_value st') v"
  using assms by (auto simp: process_token_def split: sum.splits dest: update_max_below)

lemma keep_below:
  "\<exists>v. r = Inr v \<and> \<not> dec_less (max_value a) v \<Longrightarrow> advances n a b
     \<Longrightarrow> \<exists>v. r = Inr v \<and> \<not> dec_less (max_value b) v"
  by (auto dest: below_advances)

lemma tokens_below:
  assumes "for_each (process_token n mult) toks st = Inr st'" and "(num_str, w) \<in> set toks"
  shows "\<exists>v. parse_value num_str w mult = Inr v \<and> \<not> dec_less (max_value st') v"
  using process_token_advances _ _ assms
  by (rule for_each_reaches) (auto dest: process_token_below below_advances)

lemma cell_below:
  assumes "process_cell n cm tm ex (col_idx, Some c) st = Inr st'" and "c \<noteq> []"
    and "(num_str, w) \<in> set (number_tokens c)"
  shows "\<exists>v. parse_value num_str w (pick_context_mult cm col_idx tm ex) = Inr v
             \<and> \<not> dec_less (max_value st') v"
  using assms by (auto simp: process_cell_def intro: tokens_below)

lemma row_below:
  assumes "process_row n cm tm (Some first_cell # cells) st = Inr st'" and "first_cell \<noteq> []"
    and "(col_idx, Some c) \<in> set (List.enumerate 0 (Some first_cell # cells))" and "c \<noteq> []"
    and "(num_str, w) \<in> set (number_tokens c)"
  shows "\<exists>v. parse_value num_str w (pick_context_mult cm col_idx tm (is_excluded_row first_cell)) = Inr v
             \<and> \<not> dec_less (max_value st') v"
proof -
  from assms(1,2) have run: "for_each (process_cell n cm tm (is_excluded_row first_cell))
      (List.enumerate 0 (Some first_cell # cells)) st = Inr st'"
    by (simp add: process_row_def del: enumerate_simps)
  show ?thesis
    using process_cell_advances _ _ run assms(3)
    by (rule for_each_reaches) (auto dest: cell_below [OF _ assms(4,5)] below_advances)
qed

text \<open>
  C4, as amended. In a table with a non-empty header row, every non-empty cell of every
  data row whose first cell is non-empty is scanned: each of its tokens is resolved with
  the cell's multiplier and compared, so that the maximum after the table is not below
  its value. A data row that is empty, or whose first cell is None or empty, is
  skipped as a whole.
\<close>

theorem labelled_rows_fully_scanned:
  assumes "process_table page n pm (t_idx, header_row # data_rows) st = Inr st'"
    and "header_row \<noteq> []"
    and "Some first_cell # cells \<in> set data_rows" and "first_cell \<noteq> []"
    and "(col_idx, Some c) \<in> set (List.enumerate 0 (Some first_cell # cells))" and "c \<noteq> []"
    and "(num_str, w) \<in> set (number_tokens c)"
  shows "(\<exists>v. parse_value num_str w
                (pick_context_mult (column_multipliers header_row) col_idx
                   (table_context_multiplier pm (find_tables page ! t_idx) (extract_words page))
                   (is_excluded_row first_cell)) = Inr v
             \<and> \<not> dec_less (max_value st') v)
       \<and> process_row n cm tm [] st = Inr st
       \<and> process_row n cm tm (None # cells') st = Inr st
       \<and> process_row n cm tm (Some [] # cells') st = Inr st"
proof -
  from assms(1,2) have run: "for_each
        (process_row n (column_multipliers header_row)
           (table_context_multiplier pm (find_tables page ! t_idx) (extract_words page)))
        data_rows st = Inr st'"
    by (simp add: process_table_def split: if_splits)
  have scanned: "\<exists>v. parse_value num_str w
                (pick_context_mult (column_multipliers header_row) col_idx
                   (table_context_multiplier pm (find_tables page ! t_idx) (extract_words page))
                   (is_excluded_row first_cell)) = Inr v
             \<and> \<not> dec_less (max_value st') v"
    using process_row_advances _ _ run assms(3)
    by (rule for_each_reaches) (auto dest: row_below [OF _ assms(4,5,6,7)] below_advances)
  have skipped: "process_row n cm tm [] st = Inr st"
    "process_row n cm tm (None # cells') st = Inr st"
    "process_row n cm tm (Some [] # cells') st = Inr st"
    by (simp_all add: process_row_def)
  from scanned skipped show ?thesis by blast
qed

theorem labelled_rows_fully_scanned_witness:
  "process_table label_page 1 (Finite False 1 0) (0, [Some ''h'', Some ''v''] # [[Some ''x'', Some ''999'']])
      initial_state = Inr \<lparr>max_value = Finite False 999 0, max_page = 1\<rparr>
   \<and> [Some ''h'', Some ''v''] \<noteq> []
   \<and> Some ''x'' # [Some ''999''] \<in> set [[Some ''x'', Some ''999'']]
   \<and> ''x'' \<noteq> []
   \<and> (1, Some ''999'') \<in> set (List.enumerate 0 (Some ''x'' # [Some ''999'']))
   \<and> ''999'' \<noteq> []
   \<and> (''999'', None) \<in> set (number_tokens ''999'')
   \<and> (\<exists>v. parse_value ''999'' None
              (pick_context_mult (column_multipliers [Some ''h'', Some ''v'']) 1
                 (table_context_multiplier (Finite False 1 0) (find_tables label_page ! 0)
                    (extract_words label_page))
                 (is_excluded_row ''x'')) = Inr v
          \<and> \<not> dec_less (max_value \<lparr>max_value = Finite False 999 0, max_page = 1\<rparr>) v)"
proof -
  have t: "number_tokens ''999'' = [(''999'', None)]"
    by (simp add: re_eval char_eval)
  have tx: "number_tokens ''x'' = []"
    by (simp add: re_eval char_eval)
  have cm: "column_multipliers [Some ''h'', Some ''v''] = (\<lambda>c. None)"
    by (simp add: column_multipliers_def header_cell_multiplier_def MULTIPLIERS_def re_eval
        char_eval)
  have tm: "table_context_multiplier (Finite False 1 0) (find_tables label_page ! 0)
              (extract_words label_page) = Finite False 1 0"
    by (simp add: label_page_def table_context_multiplier_def nearby_text_def re_eval char_eval)
  have ex: "is_excluded_row ''x'' = False"
    by (simp add: is_excluded_row_def ROW_EXCLUSION_KEYWORDS_def char_eval)
  have run: "process_table label_page 1 (Finite False 1 0)
      (0, [Some ''h'', Some ''v''] # [[Some ''x'', Some ''999'']]) initial_state
      = Inr \<lparr>max_value = Finite False 999 0, max_page = 1\<rparr>"
    unfolding process_table_def
    by (simp add: cm ex t tx process_row_def process_cell_def process_token_def
        pick_context_mult_def update_max_def decimal_gt_def initial_state_def label_page_def
        table_context_multiplier_def nearby_text_def re_eval
        parse_value_eval char_eval decimal_eval)
  from labelled_rows_fully_scanned
         [OF run, of "''x''" "[Some ''999'']" 1 "''999''" "''999''" None]
       run t
  show ?thesis by simp
qed

text \<open>
  The claim as first stated fails on a data row whose first cell is None: its cell
  "999" holds a token, yet the maximum stays at minus infinity and the scan reports no
  value.
\<close>

theorem unlabelled_row_skipped_counterexample:
  "process_table skip_page 1 (Finite False 1 0) (0, [Some ''h'', Some ''v''] # [[None, Some ''999'']])
      initial_state = Inr initial_state
   \<and> (1, Some ''999'') \<in> set (List.enumerate 0 [None, Some ''999''])
   \<and> (''999'', None) \<in> set (number_tokens ''999'')
   \<and> parse_value ''999'' None (Finite False 1 0) = Inr (Finite False 999 0)
   \<and> dec_less (max_value initial_state) (Finite False 999 0)
   \<and> find_highest_value_in_pdf (Some [skip_page]) = Inr None"
proof -
  have t: "number_tokens ''999'' = [(''999'', None)]"
    by (simp add: re_eval char_eval)
  have run: "process_table skip_page 1 (Finite False 1 0)
      (0, [Some ''h'', Some ''v''] # [[None, Some ''999'']]) initial_state = Inr initial_state"
    by (simp add: process_table_def process_row_def skip_page_def)
  have v: "parse_value ''999'' None (Finite False 1 0) = Inr (Finite False 999 0)"
    by (simp add: parse_value_eval char_eval decimal_eval)
  have l: "dec_less (max_value initial_state) (Finite False 999 0)"
    by (simp add: initial_state_def)
  have "process_page (0, skip_page) initial_state = Inr initial_state"
    by (simp add: skip_page_def skip_table_def process_page_def process_table_def
        process_row_def process_non_table_def non_table_text_def)
  then have f: "find_highest_value_in_pdf (Some [skip_page]) = Inr None"
    by (simp add: find_highest_value_in_pdf_def scan_pages_def decimal_eq_def initial_state_def)
  from run t v l f show ?thesis by simp
qed

section \<open>The multiplier of a table\<close>

lemma nearby_text_foldl:
  "foldl (\<lambda>acc word. if P word then acc @ '' '' @ w_text word else acc) acc ws =
     acc @ concat (map (\<lambda>w. '' '' @ w_text w) (filter P ws))"
  by (induction ws arbitrary: acc) simp_all

text \<open>
  C5, as amended. The text near a table is the concatenation, each preceded by a space,
  of the page words whose left edge \<open>x0\<close> lies between the box's left and right edges
  and whose top is less than 80 units from the box's top or whose bottom is less than
  80 units from the box's bottom, each distance being the magnitude of the difference as
  the float subtraction gives it. The table's multiplier is the lexicon factor of the
  first context match in that text, and the fallback when there is no match or the
  matched word is not in the lexicon. In the scan of a page the fallback is the page's
  multiplier, and the rows of the table are processed with the table's multiplier.
\<close>

theorem table_scale_resolution:
  "nearby_text (b0, b1, b2, b3) ws =
     concat (map (\<lambda>w. '' '' @ w_text w)
       (filter (\<lambda>w. b0 \<le> w_x0 w \<and> w_x0 w \<le> b2
                     \<and> (\<bar>float_round (w_top w - b1)\<bar> < 80
                          \<or> \<bar>float_round (w_bottom w - b3)\<bar> < 80)) ws))
   \<and> table_context_multiplier pm bbox ws =
       (case search True CONTEXT_MULTIPLIER_RE (nearby_text bbox ws) of
          None \<Rightarrow> pm
        | Some m \<Rightarrow>
            (case lexicon_multiplier (first_set_group (groups (nearby_text bbox ws) m 3)) of
               Some factor \<Rightarrow> factor
             | None \<Rightarrow> pm))
   \<and> process_table page n pm (t_idx, header_row # data_rows) st =
       (if header_row = [] then Inr st
        else if length (find_tables page) \<le> t_idx then Inl IndexError
        else for_each
               (process_row n (column_multipliers header_row)
                  (table_context_multiplier pm (find_tables page ! t_idx) (extract_words page)))
               data_rows st)
   \<and> process_page (i, page) st =
       (case for_each
               (\<lambda>(t_idx, table) st'.
                  case table of
                    [] \<Rightarrow> Inr st'
                  | header_row # data_rows \<Rightarrow>
                      if header_row = [] then Inr st'
                      else if length (find_tables page) \<le> t_idx then Inl IndexError
                      else for_each
                             (process_row (int i + 1) (column_multipliers header_row)
                                (table_context_multiplier (get_page_level_multiplier page)
                                   (find_tables page ! t_idx) (extract_words page)))
                             data_rows st')
               (List.enumerate 0 (extract_tables page)) st of
          Inl ex \<Rightarrow> Inl ex
        | Inr st' \<Rightarrow> process_non_table page (int i + 1) st')"
proof -
  have "nearby_text (b0, b1, b2, b3) ws =
     concat (map (\<lambda>w. '' '' @ w_text w) (filter (near_table (b0, b1, b2, b3)) ws))"
    by (simp add: nearby_text_def nearby_text_foldl)
  moreover have "near_table (b0, b1, b2, b3) =
      (\<lambda>w. b0 \<le> w_x0 w \<and> w_x0 w \<le> b2
             \<and> (\<bar>float_round (w_top w - b1)\<bar> < 80 \<or> \<bar>float_round (w_bottom w - b3)\<bar> < 80))"
    by (simp add: near_table_def fun_eq_iff)
  moreover have "process_table page k pm' =
      (\<lambda>(t_idx, table) st'.
                  case table of
                    [] \<Rightarrow> Inr st'
                  | header_row # data_rows \<Rightarrow>
                      if header_row = [] then Inr st'
                      else if length (find_tables page) \<le> t_idx then Inl IndexError
                      else for_each
                             (process_row k (column_multipliers header_row)
                                (table_context_multiplier pm'
                                   (find_tables page ! t_idx) (extract_words page)))
                             data_rows st')" for k pm'
    by (simp add: process_table_def fun_eq_iff)
  ultimately show ?thesis
    by (simp add: table_context_multiplier_def process_page_def)
qed

theorem table_scale_resolution_witness:
  "nearby_text (0, 500, 200, 600) wide_words = '' (in millions)''
   \<and> table_context_multiplier (Finite False 1 0) (0, 500, 200, 600) wide_words
       = Finite False 1000000 0
   \<and> table_context_multiplier (Finite False 1000 0) (0, 500, 200, 600) [] = Finite False 1000 0
   \<and> \<bar>float_0_1 - float_80_1\<bar> < 80
   \<and> nearby_text (0, float_80_1, 200, 600) edge_words = []
   \<and> get_page_level_multiplier thousands_page = Finite False 1000 0
   \<and> process_page (0, thousands_page) initial_state
       = Inr \<lparr>max_value = Finite False 452000 (- 1), max_page = 1\<rparr>"
proof -
  have f: "filter (\<lambda>w. (0::real) \<le> w_x0 w \<and> w_x0 w \<le> 200
                     \<and> (\<bar>float_round (w_top w - 500)\<bar> < 80
                          \<or> \<bar>float_round (w_bottom w - 600)\<bar> < 80)) wide_words = wide_words"
    by (simp add: wide_words_def mk_word_def)
  from table_scale_resolution
         [where ?b0.0 = 0 and ?b1.0 = 500 and ?b2.0 = 200 and ?b3.0 = 600 and ws = wide_words] f
  have n: "nearby_text (0, 500, 200, 600) wide_words = '' (in millions)''"
    by (simp add: wide_words_def mk_word_def)
  have m: "(case search True CONTEXT_MULTIPLIER_RE '' (in millions)'' of
              None \<Rightarrow> Finite False 1 0
            | Some m \<Rightarrow>
                (case lexicon_multiplier (first_set_group (groups '' (in millions)'' m 3)) of
                   Some factor \<Rightarrow> factor
                 | None \<Rightarrow> Finite False 1 0)) = Finite False 1000000 0"
    by (simp add: lexicon_multiplier_def first_set_group_def MULTIPLIERS_def re_eval char_eval)
  have e: "nearby_text (0, 500, 200, 600) [] = []"
    by (simp add: nearby_text_def)
  have se: "search True CONTEXT_MULTIPLIER_RE [] = None"
    by (simp add: re_eval char_eval)
  from table_scale_resolution
         [where pm = "Finite False 1 0" and bbox = "(0, 500, 200, 600)" and ws = wide_words]
  have t1: "table_context_multiplier (Finite False 1 0) (0, 500, 200, 600) wide_words
      = Finite False 1000000 0"
    by (simp only: n m)
  from table_scale_resolution
         [where pm = "Finite False 1000 0" and bbox = "(0, 500, 200, 600)" and ws = "[]"]
  have t2: "table_context_multiplier (Finite False 1000 0) (0, 500, 200, 600) [] = Finite False 1000 0"
    by (simp add: e se)
  have x: "\<bar>float_0_1 - float_80_1\<bar> < 80"
    by (simp add: float_0_1_def float_80_1_def)
  have r: "float_round (float_0_1 - float_80_1) = - 80"
    by (subst float_round_eq [where e = 6])
       (simp_all add: float_0_1_def float_80_1_def round_half_even_def)
  have g: "filter (\<lambda>w. (0::real) \<le> w_x0 w \<and> w_x0 w \<le> 200
                     \<and> (\<bar>float_round (w_top w - float_80_1)\<bar> < 80
                          \<or> \<bar>float_round (w_bottom w - 600)\<bar> < 80)) edge_words = []"
    by (simp add: edge_words_def mk_word_def r)
  from table_scale_resolution
         [where ?b0.0 = 0 and ?b1.0 = float_80_1 and ?b2.0 = 200 and ?b3.0 = 600
            and ws = edge_words] g
  have n2: "nearby_text (0, float_80_1, 200, 600) edge_words = []"
    by simp
  have pg: "get_page_level_multiplier thousands_page = Finite False 1000 0"
    by (simp add: thousands_page_def scan_eval re_eval char_eval MULTIPLIERS_def)
  have tm: "table_context_multiplier (Finite False 1000 0) (find_tables thousands_page ! 0)
              (extract_words thousands_page) = Finite False 1000 0"
    by (simp add: thousands_page_def table_context_multiplier_def nearby_text_def near_table_def
          mk_word_def se)
  have cm: "column_multipliers [Some ''Item'', Some ''Amount''] = (\<lambda>c. None)"
    by (simp add: column_multipliers_def header_cell_multiplier_def enumerate_eq_zip
          MULTIPLIERS_def re_eval char_eval)
  have rw: "process_row 1 (\<lambda>c. None) (Finite False 1000 0)
              [Some ''Revenue'', Some ''45.2''] initial_state
            = Inr \<lparr>max_value = Finite False 452000 (- 1), max_page = 1\<rparr>"
    by (simp add: scan_eval re_eval char_eval parse_value_eval decimal_eval)
  have nt: "process_non_table thousands_page 1
              \<lparr>max_value = Finite False 452000 (- 1), max_page = 1\<rparr>
            = Inr \<lparr>max_value = Finite False 452000 (- 1), max_page = 1\<rparr>"
    by (simp add: thousands_page_def scan_eval re_eval char_eval)
  have sel: "extract_tables thousands_page
               = [[[Some ''Item'', Some ''Amount''], [Some ''Revenue'', Some ''45.2'']]]"
            "length (find_tables thousands_page) = 1"
    by (simp_all add: thousands_page_def)
  from table_scale_resolution
         [where i = 0 and page = thousands_page and st = initial_state,
          THEN conjunct2, THEN conjunct2, THEN conjunct2]
  have pp: "process_page (0, thousands_page) initial_state
       = Inr \<lparr>max_value = Finite False 452000 (- 1), max_page = 1\<rparr>"
    by (simp add: sel enumerate_eq_zip pg tm cm rw nt del: One_nat_def)
  from n t1 t2 x n2 pg pp show ?thesis by simp
qed

text \<open>
  The claim as first stated fails on a word that starts inside the box's horizontal span
  and ends beyond it: the code collects it, so the text near the table reads
  "(in millions)" and the table is scaled by a million, while the words whose whole span
  lies within the edges give a text with no context match.
\<close>

theorem word_beyond_right_edge_counterexample:
  "near_table wide_box (mk_word ''millions)'' 35 460 250 470)
   \<and> \<not> spec_near_table wide_box (mk_word ''millions)'' 35 460 250 470)
   \<and> nearby_text wide_box wide_words = '' (in millions)''
   \<and> table_context_multiplier (Finite False 1 0) wide_box wide_words = Finite False 1000000 0
   \<and> concat (map (\<lambda>w. '' '' @ w_text w) (filter (spec_near_table wide_box) wide_words)) = '' (in''
   \<and> search True CONTEXT_MULTIPLIER_RE '' (in'' = None"
proof -
  have a: "near_table wide_box (mk_word ''millions)'' 35 460 250 470)"
    by (simp add: near_table_def wide_box_def mk_word_def)
  have b: "\<not> spec_near_table wide_box (mk_word ''millions)'' 35 460 250 470)"
    by (simp add: spec_near_table_def wide_box_def mk_word_def)
  have n: "nearby_text wide_box wide_words = '' (in millions)''"
    by (simp add: nearby_text_def near_table_def wide_box_def wide_words_def mk_word_def)
  have t: "table_context_multiplier (Finite False 1 0) wide_box wide_words = Finite False 1000000 0"
    unfolding table_context_multiplier_def n
    by (simp add: lexicon_multiplier_def first_set_group_def MULTIPLIERS_def re_eval char_eval)
  have c: "concat (map (\<lambda>w. '' '' @ w_text w) (filter (spec_near_table wide_box) wide_words)) = '' (in''"
    by (simp add: spec_near_table_def wide_box_def wide_words_def mk_word_def)
  have z: "search True CONTEXT_MULTIPLIER_RE '' (in'' = None"
    by (simp add: re_eval char_eval)
  from a b n t c z show ?thesis by simp
qed

section \<open>The context matcher\<close>



lemma match_at_start: "match_at ic r s k = Some (k', j, cp) \<Longrightarrow> k' = k"
  by (auto simp: match_at_def split: list.splits)






section \<open>The matches of the number pattern\<close>

lemma groups_of_patterns [simp]:
  "groups_of NUMBER_LITERAL = {}" "groups_of INLINE_WORD = {}"
  by (simp_all add: NUMBER_LITERAL_def INLINE_WORD_def)

lemma number_re_match:
  assumes m: "(j, cp') \<in> set (rmatch True NUMBER_RE s k cp)" and k: "k \<le> length s"
  shows "\<exists>b a. k \<le> b \<and> b \<le> a \<and> a \<le> j \<and> j \<le> length s
      \<and> substr s k b \<in> lang True NUMBER_LITERAL
      \<and> list_all is_space (substr s b a)
      \<and> cp' 1 = Some (k, b)
      \<and> ((a = j \<and> cp' 2 = cp 2) \<or> (cp' 2 = Some (a, j) \<and> substr s a j \<in> lang True INLINE_WORD))
      \<and> at_boundary s j"
proof -
  from m obtain b c1 a c2 e c3 where
    g1: "(b, c1) \<in> set (rmatch True (Group 1 NUMBER_LITERAL) s k cp)"
    and sp: "(a, c2) \<in> set (rmatch True (Rep 0 None Space) s b c1)"
    and opt: "(e, c3) \<in> set (rmatch True (Rep 0 (Some 1) (Group 2 INLINE_WORD)) s a c2)"
    and look: "(j, cp') \<in> set (rmatch True (Lookahead Boundary) s e c3)"
    unfolding NUMBER_RE_def in_rmatch_Seq by blast
  from g1 obtain c0 where lit: "(b, c0) \<in> set (rmatch True NUMBER_LITERAL s k cp)"
    and c1: "c1 = c0(1 \<mapsto> (k, b))"
    unfolding in_rmatch_Group by blast
  from rmatch_sound [OF lit k] have L: "k \<le> b" "b \<le> length s"
    "substr s k b \<in> lang True NUMBER_LITERAL" by simp_all
  have c0: "c0 n = cp n" for n using lit by (rule rmatch_caps) simp
  from rmatch_sound [OF sp L(2)] have S: "b \<le> a" "a \<le> length s"
    "substr s b a \<in> lang True (Rep 0 None Space)" by simp_all
  have c2: "c2 n = c1 n" for n using sp by (rule rmatch_caps) simp
  from in_rmatch_Lookahead [OF look] obtain j0 where
    je: "j = e" and "(j0, cp') \<in> set (rmatch True Boundary s e c3)" by blast
  then have bd: "cp' = c3" "at_boundary s e" by (simp_all add: in_rmatch_Boundary)
  from iffD1 [OF in_rmatch_Rep opt] consider
    (word) m cpm where "(m, cpm) \<in> set (rmatch True (Group 2 INLINE_WORD) s a c2)" "a < m"
      "m \<le> length s" "(e, c3) \<in> set (rmatch True (Rep 0 (Some 0) (Group 2 INLINE_WORD)) s m cpm)"
    | (none) "e = a" "c3 = c2"
    by auto
  then show ?thesis
  proof cases
    case word
    from iffD1 [OF in_rmatch_Rep word(4)] have e: "e = m" "c3 = cpm" by simp_all
    from word(1) obtain cw where w: "(m, cw) \<in> set (rmatch True INLINE_WORD s a c2)"
      and cpm: "cpm = cw(2 \<mapsto> (a, m))"
      unfolding in_rmatch_Group by blast
    from rmatch_sound [OF w S(2)] have W: "substr s a m \<in> lang True INLINE_WORD" by simp
    have cw: "cw n = c2 n" for n using w by (rule rmatch_caps) simp
    have "cp' 1 = Some (k, b)" by (simp add: bd e cpm cw c2 c1)
    moreover have "cp' 2 = Some (a, j)" by (simp add: bd e cpm je)
    ultimately show ?thesis
      using L S W word(2,3) bd(2) je e lang_spaces [OF S(3)] by (intro exI [of _ b] exI [of _ a]) simp
  next
    case none
    have "cp' 1 = Some (k, b)" by (simp add: bd none c2 c1)
    moreover have "cp' 2 = cp 2" by (simp add: bd none c2 c1 c0)
    ultimately show ?thesis
      using L S bd(2) je none lang_spaces [OF S(3)] by (intro exI [of _ b] exI [of _ a]) simp
  qed
qed

lemma finditer_pos_mem:
  "m \<in> set (finditer_pos ic r s ks nxt) \<Longrightarrow> \<exists>k\<in>set ks. match_at ic r s k = Some m"
proof (induction ks arbitrary: nxt)
  case Nil
  then show ?case by simp
next
  case (Cons k ks)
  show ?case
  proof (cases "k < nxt")
    case True
    with Cons.prems have "m \<in> set (finditer_pos ic r s ks nxt)" by simp
    from Cons.IH [OF this] show ?thesis by auto
  next
    case False
    show ?thesis
    proof (cases "match_at ic r s k")
      case None
      with False Cons.prems have "m \<in> set (finditer_pos ic r s ks nxt)" by simp
      from Cons.IH [OF this] show ?thesis by auto
    next
      case (Some m')
      obtain k' j cp where m': "m' = (k', j, cp)" by (cases m')
      with False Some Cons.prems
      have "m = m' \<or> m \<in> set (finditer_pos ic r s ks (max j (Suc k)))" by auto
      then show ?thesis
      proof
        assume "m = m'"
        with Some show ?thesis by simp
      next
        assume "m \<in> set (finditer_pos ic r s ks (max j (Suc k)))"
        from Cons.IH [OF this] show ?thesis by auto
      qed
    qed
  qed
qed

lemma finditer_mem:
  assumes "(k, j, cp) \<in> set (finditer ic r s)"
  shows "k \<le> length s \<and> (j, cp) \<in> set (rmatch ic r s k (\<lambda>n. None))"
proof -
  from assms obtain k0 where k0: "k0 \<in> set [0..<Suc (length s)]"
    and m: "match_at ic r s k0 = Some (k, j, cp)"
    unfolding finditer_def by (blast dest: finditer_pos_mem)
  from m have "k = k0" by (rule match_at_start)
  moreover from m have "(j, cp) \<in> set (rmatch ic r s k0 (\<lambda>n. None))"
    by (auto simp: match_at_def split: list.splits)
  ultimately show ?thesis using k0 by auto
qed


lemma length_substr: "j \<le> length s \<Longrightarrow> length (substr s i j) = j - i"
  by (simp add: substr_def)

lemma number_tokens_mem:
  assumes "(num_str, w) \<in> set (number_tokens s)"
  shows "\<exists>k j cp b. (k, j, cp) \<in> set (finditer True NUMBER_RE s) \<and> cp 1 = Some (k, b)
           \<and> k \<le> b \<and> b \<le> length s
           \<and> num_str = substr s k b \<and> substr s k b \<in> lang True NUMBER_LITERAL
           \<and> w = group_text s cp 2"
proof -
  from assms obtain k j cp where mem: "(k, j, cp) \<in> set (finditer True NUMBER_RE s)"
    and num: "num_str = (case group_text s cp 1 of None \<Rightarrow> [] | Some t \<Rightarrow> t)"
    and w: "w = group_text s cp 2"
    by (auto simp: number_tokens_def)
  from finditer_mem [OF mem] have k: "k \<le> length s"
    and m: "(j, cp) \<in> set (rmatch True NUMBER_RE s k (\<lambda>n. None))" by simp_all
  from number_re_match [OF m k] obtain b where b: "k \<le> b" "b \<le> length s"
    "substr s k b \<in> lang True NUMBER_LITERAL" "cp 1 = Some (k, b)"
    by auto
  from num b(4) have "num_str = substr s k b" by (simp add: group_text_def)
  with mem b w show ?thesis by blast
qed

lemma multipliers_finite: "map_of MULTIPLIERS l = Some m \<Longrightarrow> \<exists>c. m = Finite False c 0"
  by (auto simp: MULTIPLIERS_def split: if_splits)

lemma dec_fix_no_invalid: "dec_fix sg c e \<noteq> Inl InvalidOperation \<and> dec_fix sg c e \<noteq> Inl TypeError"
  by (simp add: dec_fix_def Let_def)

lemma except_invalid_id:
  "r \<noteq> Inl InvalidOperation \<Longrightarrow> r \<noteq> Inl TypeError \<Longrightarrow> except_invalid r = r"
  by (cases r rule: except_invalid.cases) simp_all

text \<open>
  C10. For a text of at most \<open>MAX_PREC\<close> characters (the digit limit of the exact
  Decimal constructor, 999999999999999999), the literal of every token that the number
  pattern finds cleans to a string that Decimal parses, to a finite non-negative value
  with no positive exponent. With a finite fallback multiplier, the body of
  \<open>parse_value\<close> then raises neither InvalidOperation nor TypeError, so the handler
  that returns zero is never entered.
\<close>

theorem scanner_literals_parse:
  assumes "(num_str, w) \<in> set (number_tokens s)" and "int (length s) \<le> MAX_PREC"
  shows "\<exists>n e. Decimal (clean_number_string num_str) = Inr (Finite False n e) \<and> e \<le> 0
     \<and> (\<forall>sg c e2. parse_value_try num_str w (Finite sg c e2) \<noteq> Inl InvalidOperation
                \<and> parse_value_try num_str w (Finite sg c e2) \<noteq> Inl TypeError
                \<and> parse_value num_str w (Finite sg c e2)
                    = parse_value_try num_str w (Finite sg c e2))"
proof -
  from number_tokens_mem [OF assms(1)] obtain k b where kb: "k \<le> b" "b \<le> length s"
    "num_str = substr s k b" "substr s k b \<in> lang True NUMBER_LITERAL"
    by blast
  from number_literal_shape [OF kb(4)] kb(3) obtain ds fs where sh: "ds \<noteq> []"
    "list_all is_digit ds" "list_all is_digit fs"
    "clean_number_string num_str = ds @ (if fs = [] then [] else CHR ''.'' # fs)"
    "length ds + length fs \<le> length num_str"
    by auto
  have "length num_str \<le> length s" using kb by (simp add: length_substr)
  with sh(5) assms(2) have "int (length ds + length fs) \<le> MAX_PREC" by simp
  from Decimal_digits [OF sh(1,2,3) this] sh(4)
  have dec: "Decimal (clean_number_string num_str)
      = Inr (Finite False (nat_of_digits (ds @ fs)) (- int (length fs)))" by simp
  have noinv: "parse_value_try num_str w (Finite sg c e2) \<noteq> Inl InvalidOperation
      \<and> parse_value_try num_str w (Finite sg c e2) \<noteq> Inl TypeError" for sg c e2
    by (auto simp: parse_value_try_def dec dec_fix_no_invalid
        split: option.splits dest!: multipliers_finite)
  have "parse_value num_str w (Finite sg c e2) = parse_value_try num_str w (Finite sg c e2)"
    for sg c e2
    unfolding parse_value_def using noinv [of sg c e2] by (intro except_invalid_id) simp_all
  with dec noinv show ?thesis by auto
qed

theorem scanner_literals_parse_witness:
  "(''$1,234.5'', Some ''Million'') \<in> set (number_tokens ''$1,234.5 Million'')
   \<and> int (length ''$1,234.5 Million'') \<le> MAX_PREC
   \<and> (\<exists>n e. Decimal (clean_number_string ''$1,234.5'') = Inr (Finite False n e) \<and> e \<le> 0
        \<and> (\<forall>sg c e2. parse_value_try ''$1,234.5'' (Some ''Million'') (Finite sg c e2)
                          \<noteq> Inl InvalidOperation
                   \<and> parse_value_try ''$1,234.5'' (Some ''Million'') (Finite sg c e2)
                          \<noteq> Inl TypeError
                   \<and> parse_value ''$1,234.5'' (Some ''Million'') (Finite sg c e2)
                       = parse_value_try ''$1,234.5'' (Some ''Million'') (Finite sg c e2)))"
proof -
  have t: "number_tokens ''$1,234.5 Million'' = [(''$1,234.5'', Some ''Million'')]"
    by (simp add: re_eval char_eval)
  then have m: "(''$1,234.5'', Some ''Million'') \<in> set (number_tokens ''$1,234.5 Million'')"
    by simp
  have l: "int (length ''$1,234.5 Million'') \<le> MAX_PREC"
    by (simp add: MAX_PREC_def)
  from scanner_literals_parse [OF m l] m l show ?thesis by blast
qed

section \<open>The inline scale word\<close>



lemma length_lower [simp]: "length (lower x) = length x"
  by (simp add: lower_def)















section \<open>The result when no number is found\<close>

lemma for_each_unchanged:
  "(\<And>x a. x \<in> set xs \<Longrightarrow> f x a = Inr a) \<Longrightarrow> for_each f xs st = Inr st"
  by (induction xs arbitrary: st) simp_all

lemma for_each_unchanged_or_raised:
  "(\<And>x a. x \<in> set xs \<Longrightarrow> f x a = Inr a \<or> (\<exists>ex. f x a = Inl ex))
     \<Longrightarrow> for_each f xs st = Inr st \<or> (\<exists>ex. for_each f xs st = Inl ex)"
proof (induction xs arbitrary: st)
  case Nil
  then show ?case by simp
next
  case (Cons x xs)
  from Cons.prems [of x st] have "f x st = Inr st \<or> (\<exists>ex. f x st = Inl ex)" by simp
  then show ?case
  proof
    assume "f x st = Inr st"
    moreover have "for_each f xs st = Inr st \<or> (\<exists>ex. for_each f xs st = Inl ex)"
      using Cons.prems by (intro Cons.IH) simp
    ultimately show ?thesis by simp
  next
    assume "\<exists>ex. f x st = Inl ex"
    then show ?thesis by auto
  qed
qed

lemma process_cell_no_tokens:
  assumes "\<And>c. cell = Some c \<Longrightarrow> c \<noteq> [] \<Longrightarrow> number_tokens c = []"
  shows "process_cell n cm tm ex (col_idx, cell) st = Inr st"
  using assms by (cases cell) (auto simp: process_cell_def)

lemma process_row_no_tokens:
  assumes "\<forall>t\<in>set (row_cells row). number_tokens t = []"
  shows "process_row n cm tm row st = Inr st"
proof (cases "row = [] \<or> \<not> truthy (hd row)")
  case True
  then show ?thesis by (simp add: process_row_cases)
next
  case False
  then obtain f cells where row: "row = Some f # cells" "f \<noteq> []"
    by (cases row; cases "hd row") auto
  have "process_cell n cm tm (is_excluded_row f) ic a = Inr a"
    if "ic \<in> set (List.enumerate 0 row)" for ic a
  proof -
    obtain col_idx cell where ic: "ic = (col_idx, cell)" by (cases ic)
    with that have mem: "cell \<in> set row" by (auto simp: in_set_enumerate_eq)
    have "number_tokens c = []" if "cell = Some c" "c \<noteq> []" for c
    proof -
      from mem that row have "c \<in> set (row_cells row)" by force
      with assms show ?thesis by simp
    qed
    then show ?thesis unfolding ic by (rule process_cell_no_tokens)
  qed
  then have "for_each (process_cell n cm tm (is_excluded_row f)) (List.enumerate 0 row) st = Inr st"
    by (rule for_each_unchanged)
  with False row show ?thesis by (simp add: process_row_cases)
qed

lemma process_table_no_tokens:
  assumes "\<forall>t\<in>set (scanned_cells table). number_tokens t = []"
  shows "process_table page n pm (t_idx, table) st = Inr st
       \<or> (\<exists>ex. process_table page n pm (t_idx, table) st = Inl ex)"
proof (cases "table = [] \<or> hd table = []")
  case True
  then show ?thesis by (simp add: process_table_cases)
next
  case False
  then obtain header_row data_rows where t: "table = header_row # data_rows" "header_row \<noteq> []"
    by (cases table) auto
  have "process_row n cm tm row a = Inr a" if "row \<in> set data_rows" for row a cm tm
    using assms t that by (intro process_row_no_tokens) auto
  then have "for_each (process_row n cm tm) data_rows st = Inr st" for cm tm
    by (rule for_each_unchanged)
  with t show ?thesis by (simp add: process_table_cases)
qed

lemma process_non_table_no_tokens:
  "number_tokens (non_table_text page) = [] \<Longrightarrow> process_non_table page n st = Inr st"
  by (simp add: process_non_table_def)

lemma process_page_no_tokens:
  assumes "\<forall>t\<in>set (page_texts page). number_tokens t = []"
  shows "process_page (i, page) st = Inr st \<or> (\<exists>ex. process_page (i, page) st = Inl ex)"
proof -
  let ?f = "process_table page (int i + 1) (get_page_level_multiplier page)"
  have "?f it a = Inr a \<or> (\<exists>ex. ?f it a = Inl ex)"
    if "it \<in> set (List.enumerate 0 (extract_tables page))" for it a
  proof -
    obtain t_idx table where it: "it = (t_idx, table)" by (cases it)
    with that have "table \<in> set (extract_tables page)" by (auto simp: in_set_enumerate_eq)
    with assms have "\<forall>t\<in>set (scanned_cells table). number_tokens t = []"
      by (auto simp: page_texts_def)
    then show ?thesis unfolding it by (rule process_table_no_tokens)
  qed
  then have "for_each ?f (List.enumerate 0 (extract_tables page)) st = Inr st
      \<or> (\<exists>ex. for_each ?f (List.enumerate 0 (extract_tables page)) st = Inl ex)"
    by (rule for_each_unchanged_or_raised)
  moreover have "process_non_table page (int i + 1) st = Inr st"
    using assms by (intro process_non_table_no_tokens) (simp add: page_texts_def)
  ultimately show ?thesis by (auto simp: process_page_def)
qed

lemma scan_pages_no_tokens:
  assumes "\<forall>page\<in>set pages. \<forall>t\<in>set (page_texts page). number_tokens t = []"
  shows "scan_pages pages = Inr initial_state \<or> (\<exists>ex. scan_pages pages = Inl ex)"
proof -
  have "process_page ip a = Inr a \<or> (\<exists>ex. process_page ip a = Inl ex)"
    if "ip \<in> set (List.enumerate 0 pages)" for ip a
  proof -
    obtain i page where ip: "ip = (i, page)" by (cases ip)
    with that have "page \<in> set pages" by (auto simp: in_set_enumerate_eq)
    with assms have "\<forall>t\<in>set (page_texts page). number_tokens t = []" by simp
    then show ?thesis unfolding ip by (rule process_page_no_tokens)
  qed
  then show ?thesis unfolding scan_pages_def by (rule for_each_unchanged_or_raised)
qed

lemma scan_pages_page:
  "for_each process_page (List.enumerate n pages) st0 = Inr st \<Longrightarrow>
     st = st0 \<or> (dec_less (max_value st0) (max_value st)
                  \<and> int n < max_page st \<and> max_page st \<le> int n + int (length pages))"
proof (induction pages arbitrary: n st0)
  case Nil
  then show ?case by simp
next
  case (Cons page pages)
  from Cons.prems obtain st1 where 1: "process_page (n, page) st0 = Inr st1"
    and 2: "for_each process_page (List.enumerate (Suc n) pages) st1 = Inr st"
    by (auto split: sum.splits)
  from process_page_advances [OF 1]
  have a: "st1 = st0 \<or> (dec_less (max_value st0) (max_value st1) \<and> max_page st1 = int n + 1)"
    by (simp add: advances_def)
  from Cons.IH [OF 2]
  have b: "st = st1 \<or> (dec_less (max_value st1) (max_value st)
      \<and> int (Suc n) < max_page st \<and> max_page st \<le> int (Suc n) + int (length pages))" .
  from a b show ?case by (auto dest: dec_less_trans)
qed

text \<open>
  C7. When no text that the scan reads holds a number token, the result is the
  not-found value \<open>None\<close>. A scan that ends with a maximum of exactly zero reports that
  zero with the page on which it was found, a page of the document: the two results
  differ.
\<close>

theorem no_number_gives_none:
  "((\<forall>page\<in>set pages. \<forall>t\<in>set (page_texts page). number_tokens t = []) \<longrightarrow>
       find_highest_value_in_pdf (Some pages) = Inr None)
   \<and> (scan_pages pages = Inr st \<and> max_value st = Finite sg 0 e \<longrightarrow>
        find_highest_value_in_pdf (Some pages) = Inr (Some (Finite sg 0 e, max_page st))
        \<and> 1 \<le> max_page st \<and> max_page st \<le> int (length pages))"
proof -
  have none: "find_highest_value_in_pdf (Some pages) = Inr None"
    if "\<forall>page\<in>set pages. \<forall>t\<in>set (page_texts page). number_tokens t = []"
    using scan_pages_no_tokens [OF that]
    by (auto simp: find_highest_value_in_pdf_def decimal_eq_def initial_state_def)
  have zero: "find_highest_value_in_pdf (Some pages) = Inr (Some (Finite sg 0 e, max_page st))
        \<and> 1 \<le> max_page st \<and> max_page st \<le> int (length pages)"
    if s: "scan_pages pages = Inr st" and z: "max_value st = Finite sg 0 e"
  proof -
    from s have "st = initial_state \<or> (dec_less (max_value initial_state) (max_value st)
        \<and> int 0 < max_page st \<and> max_page st \<le> int 0 + int (length pages))"
      unfolding scan_pages_def by (rule scan_pages_page)
    with z have "1 \<le> max_page st \<and> max_page st \<le> int (length pages)"
      by (auto simp: initial_state_def)
    moreover have "find_highest_value_in_pdf (Some pages) = Inr (Some (Finite sg 0 e, max_page st))"
      using s z by (simp add: find_highest_value_in_pdf_def decimal_eq_def)
    ultimately show ?thesis by simp
  qed
  from none zero show ?thesis by blast
qed

theorem no_number_gives_none_witness:
  "page_texts words_page = [''n/a'', ''-'', ''none'']
   \<and> number_tokens ''n/a'' = [] \<and> number_tokens ''-'' = [] \<and> number_tokens ''none'' = []
   \<and> find_highest_value_in_pdf (Some [words_page]) = Inr None
   \<and> scan_pages [zero_page] = Inr \<lparr>max_value = Finite False 0 0, max_page = 1\<rparr>
   \<and> find_highest_value_in_pdf (Some [zero_page]) = Inr (Some (Finite False 0 0, 1))"
proof -
  have p: "page_texts words_page = [''n/a'', ''-'', ''none'']"
    by (simp add: page_texts_def words_page_def non_table_text_def is_within_bboxes_def
        mk_word_def)
  have t: "number_tokens ''n/a'' = []" "number_tokens ''-'' = []" "number_tokens ''none'' = []"
    by (simp_all add: re_eval char_eval)
  have h: "\<forall>page\<in>set [words_page]. \<forall>t\<in>set (page_texts page). number_tokens t = []"
    by (simp add: p t)
  have z: "number_tokens (non_table_text zero_page) = [(''0'', None)]"
    by (simp add: zero_page_def scan_eval re_eval char_eval)
  have "process_page (0, zero_page) initial_state =
      for_each (process_token (int 0 + 1) (Finite False 1 0)) [(''0'', None)] initial_state"
    using free_text_page [of zero_page 0 initial_state] z by (simp add: zero_page_def)
  also have "\<dots> = Inr \<lparr>max_value = Finite False 0 0, max_page = 1\<rparr>"
    by (simp add: scan_eval parse_value_eval char_eval decimal_eval)
  finally have s: "scan_pages [zero_page] = Inr \<lparr>max_value = Finite False 0 0, max_page = 1\<rparr>"
    by (simp add: scan_pages_def)
  from no_number_gives_none [where pages = "[words_page]"] h
  have n: "find_highest_value_in_pdf (Some [words_page]) = Inr None" by blast
  from no_number_gives_none
         [where pages = "[zero_page]" and st = "\<lparr>max_value = Finite False 0 0, max_page = 1\<rparr>"
            and sg = False and e = 0] s
  have f: "find_highest_value_in_pdf (Some [zero_page]) = Inr (Some (Finite False 0 0, 1))"
    by simp
  from p t n s f show ?thesis by simp
qed

end
